theory Spec2Isabelle
  imports Main "HOL-Library.Sublist"
begin

section \<open>The metro map planner: a SAT encoder and decoder\<close>

text \<open>
  This theory embeds \<^verbatim>\<open>Code/metro_map_planner.py\<close>. The class
  \<^verbatim>\<open>MetroMapPlanner\<close> is a record; every method takes the record and returns the
  updated one. Python integers are \<^typ>\<open>int\<close>, strings are \<^typ>\<open>string\<close>, the
  dictionary \<^verbatim>\<open>var_map\<close> is a map from strings to integers.
\<close>

subsection \<open>Python's \<^verbatim>\<open>str\<close> on integers and \<^verbatim>\<open>"_".join\<close>\<close>

definition digit_char :: "nat \<Rightarrow> char" where
  "digit_char d = ''0123456789'' ! d"

fun str_nat :: "nat \<Rightarrow> string" where
  "str_nat n = (if n < 10 then [digit_char n] else str_nat (n div 10) @ [digit_char (n mod 10)])"

declare str_nat.simps [simp del]

definition str_int :: "int \<Rightarrow> string" where
  "str_int i = (if i < 0 then CHR ''-'' # str_nat (nat (- i)) else str_nat (nat i))"

text \<open>The positional arguments of \<^verbatim>\<open>get_var\<close> are strings and integers.\<close>

datatype arg = S string | I int

fun str_arg :: "arg \<Rightarrow> string" where
  "str_arg (S s) = s"
| "str_arg (I i) = str_int i"

fun join :: "string \<Rightarrow> string list \<Rightarrow> string" where
  "join sep [] = []"
| "join sep [x] = x"
| "join sep (x # y # ys) = x @ sep @ join sep (y # ys)"

text \<open>\<^verbatim>\<open>range(n)\<close> for a Python integer \<open>n\<close>: empty when \<open>n \<le> 0\<close>.\<close>

definition py_range :: "int \<Rightarrow> int list" where
  "py_range n = map int [0..<nat n]"

subsection \<open>The planner object\<close>

record planner =
  scenario :: int
  N :: int
  M :: int
  K :: int
  J :: int
  P :: int
  starts :: "(int \<times> int) list"
  ends :: "(int \<times> int) list"
  popular :: "(int \<times> int) list"
  var_counter :: int
  clauses :: "int list list"
  var_map :: "string \<rightharpoonup> int"

datatype error = IndexError | ValueError

text \<open>\<^verbatim>\<open>__init__\<close>\<close>

definition init :: planner where
  "init = \<lparr> scenario = 0, N = 0, M = 0, K = 0, J = 0, P = 0, starts = [], ends = [],
     popular = [], var_counter = 0, clauses = [], var_map = Map.empty \<rparr>"

subsection \<open>Variable registry and clause store\<close>

definition var_name :: "arg list \<Rightarrow> string" where
  "var_name args = join ''_'' (map str_arg args)"

definition get_var :: "arg list \<Rightarrow> planner \<Rightarrow> int \<times> planner" where
  "get_var args st =
     (case var_map st (var_name args) of
        None \<Rightarrow>
          (var_counter st + 1,
           st\<lparr> var_counter := var_counter st + 1,
               var_map := (var_map st)(var_name args \<mapsto> var_counter st + 1) \<rparr>)
      | Some v \<Rightarrow> (v, st))"

definition add_clause :: "int list \<Rightarrow> planner \<Rightarrow> planner" where
  "add_clause literals st =
     (if literals \<noteq> [] then st\<lparr> clauses := clauses st @ [literals] \<rparr> else st)"

subsection \<open>Cardinality encoders\<close>

definition encode_at_most_one :: "int list \<Rightarrow> planner \<Rightarrow> planner" where
  "encode_at_most_one variables st =
     fold (\<lambda>i. fold (\<lambda>j. add_clause [- (variables ! i), - (variables ! j)])
                     [i + 1..<length variables])
          [0..<length variables] st"

definition encode_exactly_one :: "int list \<Rightarrow> planner \<Rightarrow> planner" where
  "encode_exactly_one variables st =
     (if variables = [] then st
      else encode_at_most_one variables (add_clause variables st))"

subsection \<open>Constraint 1: at most one metro line per cell\<close>

text \<open>
  The loop \<^verbatim>\<open>for k in range(self.K): cell_vars.append(self.get_var("C", x, y, k))\<close>.
  \<^verbatim>\<open>encode_popular_constraints\<close> builds \<^verbatim>\<open>popular_clause\<close> with the same loop.
\<close>

definition cell_vars_of :: "int \<Rightarrow> int \<Rightarrow> planner \<Rightarrow> int list \<times> planner" where
  "cell_vars_of x y st =
     fold (\<lambda>k (cell_vars, s).
             let (v, s') = get_var [S ''C'', I x, I y, I k] s in (cell_vars @ [v], s'))
          (py_range (K st)) ([], st)"

definition encode_cell_constraints :: "planner \<Rightarrow> planner" where
  "encode_cell_constraints st =
     fold (\<lambda>x. fold (\<lambda>y s. let (cell_vars, s') = cell_vars_of x y s
                            in encode_at_most_one cell_vars s')
                     (py_range (M st)))
          (py_range (N st)) st"

subsection \<open>Constraint 2: every line is a path from its start to its end\<close>

text \<open>The dictionary \<^verbatim>\<open>directions\<close>, in insertion order.\<close>

definition directions :: "(string \<times> int \<times> int) list" where
  "directions = [(''L'', (- 1, 0)), (''R'', (1, 0)), (''U'', (0, - 1)), (''D'', (0, 1))]"

definition in_bounds :: "planner \<Rightarrow> int \<Rightarrow> int \<Rightarrow> bool" where
  "in_bounds st nx ny \<longleftrightarrow> 0 \<le> nx \<and> nx < N st \<and> 0 \<le> ny \<and> ny < M st"

text \<open>\<^verbatim>\<open>for d in directions: self.add_clause([-self.get_var("D", x, y, k, d), cell_var])\<close>\<close>

definition dir_implies_cell :: "int \<Rightarrow> int \<Rightarrow> int \<Rightarrow> int \<Rightarrow> planner \<Rightarrow> planner" where
  "dir_implies_cell k cell_var x y st =
     fold (\<lambda>(d, dx, dy) s.
             let (v, s') = get_var [S ''D'', I x, I y, I k, S d] s
             in add_clause [- v, cell_var] s')
          directions st"

text \<open>The loops that fill \<^verbatim>\<open>out_dirs\<close> and \<^verbatim>\<open>inc_dirs\<close>.\<close>

definition collect_out_dirs :: "int \<Rightarrow> int \<Rightarrow> int \<Rightarrow> planner \<Rightarrow> int list \<times> planner" where
  "collect_out_dirs k x y st =
     fold (\<lambda>(d, dx, dy) (out_dirs, s).
             if in_bounds s (x + dx) (y + dy)
             then (let (v, s') = get_var [S ''D'', I x, I y, I k, S d] s in (out_dirs @ [v], s'))
             else (out_dirs, s))
          directions ([], st)"

definition collect_inc_dirs :: "int \<Rightarrow> int \<Rightarrow> int \<Rightarrow> planner \<Rightarrow> int list \<times> planner" where
  "collect_inc_dirs k x y st =
     fold (\<lambda>(d, dx, dy) (inc_dirs, s).
             if in_bounds s (x - dx) (y - dy)
             then (let (v, s') = get_var [S ''D'', I (x - dx), I (y - dy), I k, S d] s
                   in (inc_dirs @ [v], s'))
             else (inc_dirs, s))
          directions ([], st)"

text \<open>Start cell: exactly one outgoing edge, no incoming edge.\<close>

definition no_incoming :: "int \<Rightarrow> int \<Rightarrow> int \<Rightarrow> planner \<Rightarrow> planner" where
  "no_incoming k x y st =
     fold (\<lambda>(d, dx, dy) s.
             if in_bounds s (x - dx) (y - dy)
             then (let (v, s') = get_var [S ''D'', I (x - dx), I (y - dy), I k, S d] s
                   in add_clause [- v] s')
             else s)
          directions st"

definition path_start_cell :: "int \<Rightarrow> int \<Rightarrow> int \<Rightarrow> planner \<Rightarrow> planner" where
  "path_start_cell k x y st =
     (let (out_dirs, st1) = collect_out_dirs k x y st;
          st2 = encode_exactly_one out_dirs st1
      in no_incoming k x y st2)"

text \<open>End cell: no outgoing edge, exactly one incoming edge.\<close>

definition no_outgoing :: "int \<Rightarrow> int \<Rightarrow> int \<Rightarrow> planner \<Rightarrow> planner" where
  "no_outgoing k x y st =
     fold (\<lambda>(d, dx, dy) s.
             let (v, s') = get_var [S ''D'', I x, I y, I k, S d] s in add_clause [- v] s')
          directions st"

definition path_end_cell :: "int \<Rightarrow> int \<Rightarrow> int \<Rightarrow> planner \<Rightarrow> planner" where
  "path_end_cell k x y st =
     (let st1 = no_outgoing k x y st;
          (inc_dirs, st2) = collect_inc_dirs k x y st1
      in encode_exactly_one inc_dirs st2)"

text \<open>Intermediate cells.\<close>

definition path_mid_cell :: "int \<Rightarrow> int \<Rightarrow> int \<Rightarrow> int \<Rightarrow> planner \<Rightarrow> planner" where
  "path_mid_cell k cell_var x y st =
     (let (out_dirs, st1) = collect_out_dirs k x y st;
          (inc_dirs, st2) = collect_inc_dirs k x y st1;
          st3 = (if out_dirs \<noteq> []
                 then encode_at_most_one out_dirs (add_clause ([- cell_var] @ out_dirs) st2)
                 else st2);
          st4 = (if inc_dirs \<noteq> []
                 then encode_at_most_one inc_dirs (add_clause ([- cell_var] @ inc_dirs) st3)
                 else st3)
      in fold (\<lambda>v. add_clause [cell_var, - v]) (out_dirs @ inc_dirs) st4)"

text \<open>Flow: an outgoing edge puts the next cell on the path.\<close>

definition flow_clauses :: "int \<Rightarrow> int \<Rightarrow> int \<Rightarrow> planner \<Rightarrow> planner" where
  "flow_clauses k x y st =
     fold (\<lambda>(d, dx, dy) s.
             if in_bounds s (x + dx) (y + dy)
             then (let (dir_var, s1) = get_var [S ''D'', I x, I y, I k, S d] s;
                       (next_cell, s2) = get_var [S ''C'', I (x + dx), I (y + dy), I k] s1
                   in add_clause [- dir_var, next_cell] s2)
             else s)
          directions st"

text \<open>The body of the loops over \<open>x\<close> and \<open>y\<close>.\<close>

definition encode_path_cell ::
  "int \<Rightarrow> int \<times> int \<Rightarrow> int \<times> int \<Rightarrow> int \<Rightarrow> int \<Rightarrow> planner \<Rightarrow> planner" where
  "encode_path_cell k s e x y st =
     (let (cell_var, st1) = get_var [S ''C'', I x, I y, I k] st;
          st2 = dir_implies_cell k cell_var x y st1;
          st3 = (if (x, y) = s then path_start_cell k x y st2
                 else if (x, y) = e then path_end_cell k x y st2
                 else path_mid_cell k cell_var x y st2)
      in flow_clauses k x y st3)"

text \<open>The body of the loop over the lines \<open>k\<close>, after the two list reads.\<close>

definition encode_path_line :: "int \<Rightarrow> int \<times> int \<Rightarrow> int \<times> int \<Rightarrow> planner \<Rightarrow> planner" where
  "encode_path_line k s e st =
     (let (vs, st1) = get_var [S ''C'', I (fst s), I (snd s), I k] st;
          st2 = add_clause [vs] st1;
          (ve, st3) = get_var [S ''C'', I (fst e), I (snd e), I k] st2;
          st4 = add_clause [ve] st3
      in fold (\<lambda>x. fold (\<lambda>y. encode_path_cell k s e x y) (py_range (M st4)))
              (py_range (N st4)) st4)"

text \<open>
  \<^verbatim>\<open>self.starts[k]\<close> and \<^verbatim>\<open>self.ends[k]\<close> raise \<^verbatim>\<open>IndexError\<close> when the list
  is shorter than \<open>K\<close>.
\<close>

fun encode_path_lines :: "nat list \<Rightarrow> planner \<Rightarrow> error + planner" where
  "encode_path_lines [] st = Inr st"
| "encode_path_lines (k # ks) st =
     (if k < length (starts st) \<and> k < length (ends st)
      then encode_path_lines ks (encode_path_line (int k) (starts st ! k) (ends st ! k) st)
      else Inl IndexError)"

definition encode_path_constraints :: "planner \<Rightarrow> error + planner" where
  "encode_path_constraints st = encode_path_lines [0..<nat (K st)] st"

subsection \<open>At most \<open>k\<close>\<close>

text \<open>
  \<^verbatim>\<open>itertools.combinations(variables, r)\<close>: the subsequences of length \<open>r\<close>, by
  position, in lexicographic order of the positions.
\<close>

fun combinations :: "'a list \<Rightarrow> nat \<Rightarrow> 'a list list" where
  "combinations xs 0 = [[]]"
| "combinations [] (Suc r) = []"
| "combinations (x # xs) (Suc r) = map ((#) x) (combinations xs r) @ combinations xs (Suc r)"

text \<open>
  The body of the two loops of the sequential counter. \<open>vid\<close> stands for
  \<^verbatim>\<open>id(variables)\<close>, the address of the list object, which the caller's run time
  decides.
\<close>

definition seq_cell :: "int \<Rightarrow> int list \<Rightarrow> int \<Rightarrow> int \<Rightarrow> int \<Rightarrow> planner \<Rightarrow> planner" where
  "seq_cell vid variables k i j st =
     (let (s, st1) = get_var [S ''SEQ'', I vid, I i, I j] st in
      if i = 0 then (if j = 0 then add_clause [s] st1 else add_clause [- s] st1)
      else if j > i then add_clause [- s] st1
      else
        (let x = variables ! nat (i - 1) in
         if j = 0 then
           (let (s_prev, st2) = get_var [S ''SEQ'', I vid, I (i - 1), I 0] st1;
                st3 = add_clause [- x, - s] st2;
                st4 = add_clause [x, - s_prev, s] st3
            in add_clause [- s, s_prev] st4)
         else if j \<le> k then
           (let (s_prev_j, st2) = get_var [S ''SEQ'', I vid, I (i - 1), I j] st1;
                (s_prev_j1, st3) = get_var [S ''SEQ'', I vid, I (i - 1), I (j - 1)] st2;
                st4 = add_clause [- x, - s_prev_j1, s] st3;
                st5 = add_clause [x, - s_prev_j, s] st4;
                st6 = add_clause [- s, x, s_prev_j] st5
            in add_clause [- s, - x, s_prev_j1] st6)
         else st1))"

definition valid_states_of :: "int \<Rightarrow> int \<Rightarrow> int \<Rightarrow> planner \<Rightarrow> int list \<times> planner" where
  "valid_states_of vid n k st =
     fold (\<lambda>j (valid_states, s).
             let (v, s') = get_var [S ''SEQ'', I vid, I n, I j] s in (valid_states @ [v], s'))
          (py_range (k + 1)) ([], st)"

definition sequential_counter :: "int \<Rightarrow> int list \<Rightarrow> int \<Rightarrow> planner \<Rightarrow> planner" where
  "sequential_counter vid variables k st =
     (let n = int (length variables);
          st1 = fold (\<lambda>i. fold (\<lambda>j. seq_cell vid variables k i j) (py_range (min i k + 2)))
                     (py_range (n + 1)) st;
          (valid_states, st2) = valid_states_of vid n k st1
      in add_clause valid_states st2)"

definition encode_at_most_k_simple :: "int \<Rightarrow> int list \<Rightarrow> int \<Rightarrow> planner \<Rightarrow> planner" where
  "encode_at_most_k_simple vid variables k st =
     (let n = int (length variables) in
      if k \<ge> n then st
      else if k < 0 then fold (\<lambda>v. add_clause [- v]) variables st
      else if k \<le> 3 then
        fold (\<lambda>subset. add_clause (map uminus subset)) (combinations variables (nat (k + 1))) st
      else sequential_counter vid variables k st)"

subsection \<open>Constraint 3: at most \<open>J\<close> turns in any line\<close>

definition turn_clause :: "int \<Rightarrow> int \<Rightarrow> int \<Rightarrow> string \<Rightarrow> int \<Rightarrow> int \<Rightarrow> planner \<Rightarrow> planner" where
  "turn_clause k turn_var in_var d_in x y st =
     (fold (\<lambda>(d_out, dx_out, dy_out) s.
             if \<not> in_bounds s (x + dx_out) (y + dy_out) then s
             else
               (let (out_var, s') = get_var [S ''D'', I x, I y, I k, S d_out] s in
                if d_in \<noteq> d_out then add_clause [- in_var, - out_var, turn_var] s'
                else add_clause [- in_var, - out_var, - turn_var] s'))
          directions st)"

definition encode_turn_cell :: "int \<Rightarrow> int \<Rightarrow> int \<Rightarrow> int list \<times> planner \<Rightarrow> int list \<times> planner" where
  "encode_turn_cell k x y = (\<lambda>(turn_vars, st).
     (let (turn_var, st1) = get_var [S ''T'', I x, I y, I k] st;
          st2 = fold (\<lambda>(d_in, dx_in, dy_in) s.
                   if \<not> in_bounds s (x - dx_in) (y - dy_in) then s
                   else
                     (let (in_var, s') = get_var [S ''D'', I (x - dx_in), I (y - dy_in), I k, S d_in] s
                      in turn_clause k turn_var in_var d_in x y s'))
                directions st1
      in (turn_vars @ [turn_var], st2)))"

definition turn_cells :: "int \<Rightarrow> int \<times> int \<Rightarrow> int \<times> int \<Rightarrow> planner \<Rightarrow> int list \<times> planner" where
  "turn_cells k s e st =
     fold (\<lambda>x. fold (\<lambda>y acc. if (x, y) = s \<or> (x, y) = e then acc else encode_turn_cell k x y acc)
                     (py_range (M st)))
          (py_range (N st)) ([], st)"

definition encode_turn_line :: "int \<Rightarrow> int \<Rightarrow> int \<times> int \<Rightarrow> int \<times> int \<Rightarrow> planner \<Rightarrow> planner" where
  "encode_turn_line vid k s e st =
     (let (turn_vars, st1) = turn_cells k s e st in
      if J st1 \<ge> 0 \<and> turn_vars \<noteq> [] then encode_at_most_k_simple vid turn_vars (J st1) st1
      else st1)"

text \<open>
  \<open>list_id k\<close> is the address of the list \<^verbatim>\<open>turn_vars\<close> created in the iteration for
  line \<open>k\<close>.
\<close>

fun encode_turn_lines :: "(nat \<Rightarrow> int) \<Rightarrow> nat list \<Rightarrow> planner \<Rightarrow> error + planner" where
  "encode_turn_lines list_id [] st = Inr st"
| "encode_turn_lines list_id (k # ks) st =
     (if k < length (starts st) \<and> k < length (ends st)
      then encode_turn_lines list_id ks
             (encode_turn_line (list_id k) (int k) (starts st ! k) (ends st ! k) st)
      else Inl IndexError)"

definition encode_turn_constraints :: "(nat \<Rightarrow> int) \<Rightarrow> planner \<Rightarrow> error + planner" where
  "encode_turn_constraints list_id st = encode_turn_lines list_id [0..<nat (K st)] st"

subsection \<open>Constraint 4: every popular cell is visited\<close>

definition encode_popular_constraints :: "planner \<Rightarrow> planner" where
  "encode_popular_constraints st =
     (if scenario st \<noteq> 2 then st
      else fold (\<lambda>(x, y) s. let (popular_clause, s') = cell_vars_of x y s
                            in add_clause popular_clause s')
                (popular st) st)"

subsection \<open>Writing the CNF\<close>

definition newline :: char where
  "newline = CHR 0x0A"

definition clause_line :: "int list \<Rightarrow> string" where
  "clause_line clause = join '' '' (map str_int clause) @ '' 0'' @ [newline]"

definition cnf_text :: "planner \<Rightarrow> string" where
  "cnf_text st =
     ''p cnf '' @ str_int (var_counter st) @ '' '' @ str_int (int (length (clauses st)))
       @ [newline] @ concat (map clause_line (clauses st))"

definition encode_to_sat :: "(nat \<Rightarrow> int) \<Rightarrow> planner \<Rightarrow> error + string \<times> planner" where
  "encode_to_sat list_id st =
     (let st0 = st\<lparr> var_counter := 0, clauses := [], var_map := Map.empty \<rparr>;
          st1 = encode_cell_constraints st0
      in case encode_path_constraints st1 of
           Inl err \<Rightarrow> Inl err
         | Inr st2 \<Rightarrow>
             (case encode_turn_constraints list_id st2 of
                Inl err \<Rightarrow> Inl err
              | Inr st3 \<Rightarrow>
                  (let st4 = encode_popular_constraints st3 in Inr (cnf_text st4, st4))))"

subsection \<open>Decoding the solver's output\<close>

text \<open>
  \<^verbatim>\<open>str.strip()\<close> and \<^verbatim>\<open>str.split()\<close> cut at the characters for which
  \<^verbatim>\<open>str.isspace()\<close> holds; a \<^typ>\<open>char\<close> is a code point below 256.
\<close>

definition is_space :: "char \<Rightarrow> bool" where
  "is_space c \<longleftrightarrow> (of_char c :: nat) \<in> {9, 10, 11, 12, 13, 28, 29, 30, 31, 32, 133, 160}"

definition strip :: "string \<Rightarrow> string" where
  "strip s = rev (dropWhile is_space (rev (dropWhile is_space s)))"

fun split_acc :: "string \<Rightarrow> string \<Rightarrow> string list" where
  "split_acc cur [] = (if cur = [] then [] else [cur])"
| "split_acc cur (c # cs) =
     (if is_space c then (if cur = [] then split_acc [] cs else cur # split_acc [] cs)
      else split_acc (cur @ [c]) cs)"

definition split :: "string \<Rightarrow> string list" where
  "split s = split_acc [] s"

text \<open>
  The inner loop over the tokens of one line. \<open>py_int\<close> is the builtin \<^verbatim>\<open>int\<close> on
  a token: \<open>None\<close> when it raises \<^verbatim>\<open>ValueError\<close>.
\<close>

fun parse_tokens :: "(string \<Rightarrow> int option) \<Rightarrow> string list \<Rightarrow> int set \<Rightarrow> error + int set" where
  "parse_tokens py_int [] assignments = Inr assignments"
| "parse_tokens py_int (token # tokens) assignments =
     (if token = ''0'' then Inr assignments
      else (case py_int token of
              None \<Rightarrow> Inl ValueError
            | Some var_num \<Rightarrow>
                parse_tokens py_int tokens
                  (if var_num > 0 then insert var_num assignments else assignments)))"

fun parse_lines :: "(string \<Rightarrow> int option) \<Rightarrow> string list \<Rightarrow> int set \<Rightarrow> error + int set" where
  "parse_lines py_int [] assignments = Inr assignments"
| "parse_lines py_int (line # lines) assignments =
     (case parse_tokens py_int (split (strip line)) assignments of
        Inl err \<Rightarrow> Inl err
      | Inr assignments' \<Rightarrow> parse_lines py_int lines assignments')"

text \<open>
  The loop \<^verbatim>\<open>for d in ['L', 'R', 'U', 'D']\<close> with its \<^verbatim>\<open>break\<close>: the direction
  found, if any, and the registry after the calls of \<^verbatim>\<open>get_var\<close> made so far.
\<close>

fun find_dir :: "string list \<Rightarrow> int set \<Rightarrow> int \<Rightarrow> int \<Rightarrow> int \<Rightarrow> planner \<Rightarrow> string option \<times> planner" where
  "find_dir [] assignments k x y st = (None, st)"
| "find_dir (d # ds) assignments k x y st =
     (let (dir_var, st') = get_var [S ''D'', I x, I y, I k, S d] st in
      if dir_var \<in> assignments then (Some d, st')
      else find_dir ds assignments k x y st')"

definition move :: "string \<Rightarrow> int \<times> int \<Rightarrow> int \<times> int" where
  "move d c =
     (if d = ''L'' then (fst c - 1, snd c)
      else if d = ''R'' then (fst c + 1, snd c)
      else if d = ''U'' then (fst c, snd c - 1)
      else if d = ''D'' then (fst c, snd c + 1)
      else c)"

text \<open>
  The \<^verbatim>\<open>while\<close> loop of one line. It has no bound on its steps: \<open>None\<close> is the
  run that never leaves the loop.
\<close>

partial_function (option) walk ::
  "int set \<Rightarrow> int \<Rightarrow> int \<times> int \<Rightarrow> int \<times> int \<Rightarrow> string list \<Rightarrow> planner
     \<Rightarrow> (string list \<times> planner) option" where
  "walk assignments k e c path st =
     (if c = e then Some (path, st)
      else (case find_dir [''L'', ''R'', ''U'', ''D''] assignments k (fst c) (snd c) st of
              (None, st') \<Rightarrow> Some (path, st')
            | (Some d, st') \<Rightarrow> walk assignments k e (move d c) (path @ [d]) st'))"

fun decode_lines ::
  "int set \<Rightarrow> nat list \<Rightarrow> string list list \<Rightarrow> planner
     \<Rightarrow> (error + string list list \<times> planner) option" where
  "decode_lines assignments [] metro_paths st = Some (Inr (metro_paths, st))"
| "decode_lines assignments (k # ks) metro_paths st =
     (if k < length (starts st) \<and> k < length (ends st)
      then (case walk assignments (int k) (ends st ! k) (starts st ! k) [] st of
              None \<Rightarrow> None
            | Some (path, st') \<Rightarrow> decode_lines assignments ks (metro_paths @ [path]) st')
      else Some (Inl IndexError))"

definition path_line :: "string list \<Rightarrow> string" where
  "path_line path = join '' '' path @ '' 0'' @ [newline]"

text \<open>
  \<open>sat_output\<close> is what \<^verbatim>\<open>readlines\<close> returns, \<open>None\<close> when the file does not
  exist. The result is the text written to the output file and the planner afterwards.
\<close>

definition decode_sat_output ::
  "(string \<Rightarrow> int option) \<Rightarrow> string list option \<Rightarrow> planner \<Rightarrow> (error + string \<times> planner) option" where
  "decode_sat_output py_int sat_output st =
     (case sat_output of
        None \<Rightarrow> Some (Inr (''0'' @ [newline], st))
      | Some lines \<Rightarrow>
          if lines = [] \<or> strip (hd lines) = ''UNSAT'' then Some (Inr (''0'' @ [newline], st))
          else (case parse_lines py_int (tl lines) {} of
                  Inl err \<Rightarrow> Some (Inl err)
                | Inr assignments \<Rightarrow>
                    (case decode_lines assignments [0..<nat (K st)] [] st of
                       None \<Rightarrow> None
                     | Some (Inl err) \<Rightarrow> Some (Inl err)
                     | Some (Inr (metro_paths, st')) \<Rightarrow>
                         Some (Inr (concat (map path_line metro_paths), st')))))"

subsection \<open>The meaning of clauses\<close>

text \<open>
  An assignment is the set of the variables that are true, as the decoder reads it from the
  solver. A positive literal asks for its variable, a negative one for its absence.
\<close>

definition lit_true :: "int set \<Rightarrow> int \<Rightarrow> bool" where
  "lit_true A l \<longleftrightarrow> (if l > 0 then l \<in> A else - l \<notin> A)"

definition sat_clause :: "int set \<Rightarrow> int list \<Rightarrow> bool" where
  "sat_clause A c \<longleftrightarrow> list_ex (lit_true A) c"

definition sat_all :: "int set \<Rightarrow> int list list \<Rightarrow> bool" where
  "sat_all A cs \<longleftrightarrow> list_all (sat_clause A) cs"

text \<open>One clause for each pair of positions, first position first.\<close>

fun pair_clauses :: "int list \<Rightarrow> int list list" where
  "pair_clauses [] = []"
| "pair_clauses (a # vs) = map (\<lambda>b. [- a, - b]) vs @ pair_clauses vs"

subsection \<open>The registry invariant and the growth of the planner\<close>

text \<open>
  The registry is well formed when the identifiers handed out are exactly \<open>1\<close> to
  \<open>var_counter\<close>, one for each name.
\<close>

definition reg_inv :: "planner \<Rightarrow> bool" where
  "reg_inv st \<longleftrightarrow>
     finite (dom (var_map st)) \<and> inj_on (var_map st) (dom (var_map st))
     \<and> ran (var_map st) = {1..var_counter st} \<and> 0 \<le> var_counter st"

text \<open>
  \<open>extends st st'\<close>: \<open>st'\<close> is \<open>st\<close> after more encoding. The problem data are the same,
  names keep their identifiers, clauses are only appended, and every new name has an
  identifier beyond the old counter.
\<close>

definition same_instance :: "planner \<Rightarrow> planner \<Rightarrow> bool" where
  "same_instance st st' \<longleftrightarrow>
     scenario st' = scenario st \<and> N st' = N st \<and> M st' = M st \<and> K st' = K st
     \<and> J st' = J st \<and> P st' = P st \<and> starts st' = starts st \<and> ends st' = ends st
     \<and> popular st' = popular st"

definition extends :: "planner \<Rightarrow> planner \<Rightarrow> bool" where
  "extends st st' \<longleftrightarrow>
     same_instance st st' \<and> var_map st \<subseteq>\<^sub>m var_map st'
     \<and> var_counter st \<le> var_counter st' \<and> prefix (clauses st) (clauses st')
     \<and> (reg_inv st \<longrightarrow> reg_inv st')
     \<and> (\<forall>name v. var_map st name = None \<longrightarrow> var_map st' name = Some v \<longrightarrow> var_counter st < v)"

subsection \<open>Runs of the registry\<close>

text \<open>
  A run of the registry: the calls of \<^verbatim>\<open>get_var\<close> of one encoding, one after another.
  No other method writes \<^verbatim>\<open>var_map\<close> or \<^verbatim>\<open>var_counter\<close>.
\<close>

fun get_vars :: "arg list list \<Rightarrow> planner \<Rightarrow> int list \<times> planner" where
  "get_vars [] st = ([], st)"
| "get_vars (a # as) st =
     (let (v, st') = get_var a st; (vs, st'') = get_vars as st' in (v # vs, st''))"

text \<open>What a run has done after the keys \<open>keys\<close>, from an empty registry.\<close>

definition run_ok :: "arg list list \<Rightarrow> int list \<Rightarrow> planner \<Rightarrow> bool" where
  "run_ok keys ids st' \<longleftrightarrow>
     reg_inv st' \<and> dom (var_map st') = var_name ` set keys \<and> length ids = length keys
     \<and> (\<forall>i<length keys. var_map st' (var_name (keys ! i)) = Some (ids ! i))
     \<and> (\<forall>i<length keys. var_name (keys ! i) \<notin> var_name ` set (take i keys)
           \<longrightarrow> ids ! i = 1 + int (card (var_name ` set (take i keys))))"

text \<open>
  The keys the planner asks for: \<^verbatim>\<open>("C", x, y, k)\<close>, \<^verbatim>\<open>("T", x, y, k)\<close>,
  \<^verbatim>\<open>("SEQ", id, i, j)\<close> and \<^verbatim>\<open>("D", x, y, k, d)\<close> with \<open>d\<close> one of the four
  directions.
\<close>

fun encoder_key :: "arg list \<Rightarrow> bool" where
  "encoder_key [S t, I x, I y, I k] = (t = ''C'' \<or> t = ''T'' \<or> t = ''SEQ'')"
| "encoder_key [S t, I x, I y, I k, S d] =
     (t = ''D'' \<and> (d = ''L'' \<or> d = ''R'' \<or> d = ''U'' \<or> d = ''D''))"
| "encoder_key args = False"

text \<open>Reading a decimal numeral back, to show that \<^const>\<open>str_int\<close> loses nothing.\<close>

definition digit_val :: "char \<Rightarrow> nat" where
  "digit_val c = of_char c - 48"

definition digits_val :: "string \<Rightarrow> nat" where
  "digits_val s = foldl (\<lambda>a c. 10 * a + digit_val c) 0 s"

subsection \<open>Concrete planners\<close>

text \<open>A planner with the problem data of \<open>base\<close> and the given counter, clauses and map.\<close>

definition with_registry ::
  "planner \<Rightarrow> int \<Rightarrow> int list list \<Rightarrow> (string \<rightharpoonup> int) \<Rightarrow> planner" where
  "with_registry base c cl vm = base\<lparr> var_counter := c, clauses := cl, var_map := vm \<rparr>"

text \<open>
  A grid one cell wide and two cells high, one line from \<open>(0, 0)\<close> to \<open>(0, 1)\<close>, no turn
  allowed: the input file \<^verbatim>\<open>1 / 1 2 1 0 / 0 0 0 1\<close>.
\<close>

definition inst12 :: planner where
  "inst12 = init\<lparr> scenario := 1, N := 1, M := 2, K := 1, J := 0,
     starts := [(0, 0)], ends := [(0, 1)] \<rparr>"

text \<open>The planner after \<^verbatim>\<open>encode_to_sat\<close> on it: ten variables and nineteen clauses.\<close>

definition inst12_encoded :: planner where
  "inst12_encoded = with_registry inst12 10
     [[1], [2], [- 3, 1], [- 4, 1], [- 5, 1], [- 6, 1], [6], [- 7], [- 6, 2], [- 8, 2],
      [- 9, 2], [- 7, 2], [- 10, 2], [- 8], [- 9], [- 7], [- 10], [6], [- 7, 1]]
     [''C_0_0_0'' \<mapsto> 1, ''C_0_1_0'' \<mapsto> 2, ''D_0_0_0_L'' \<mapsto> 3, ''D_0_0_0_R'' \<mapsto> 4,
      ''D_0_0_0_U'' \<mapsto> 5, ''D_0_0_0_D'' \<mapsto> 6, ''D_0_1_0_U'' \<mapsto> 7, ''D_0_1_0_L'' \<mapsto> 8,
      ''D_0_1_0_R'' \<mapsto> 9, ''D_0_1_0_D'' \<mapsto> 10]"

text \<open>
  The builtin \<^verbatim>\<open>int\<close> on the tokens of the solver outputs
  \<^verbatim>\<open>1 2 3 -4 -5 6 -7 -8 -9 -10 0\<close> and \<^verbatim>\<open>1 2 -3 -4 -5 6 -7 -8 -9 -10 0\<close>.
\<close>

definition solver_tokens :: "string \<Rightarrow> int option" where
  "solver_tokens = map_of [(''1'', 1), (''2'', 2), (''3'', 3), (''-3'', - 3), (''-4'', - 4),
     (''-5'', - 5),
     (''6'', 6), (''-7'', - 7), (''-8'', - 8), (''-9'', - 9), (''-10'', - 10)]"

text \<open>
  A registry that holds the turn indicators of five cells for each of two lines, as it stands
  when the at-most-\<open>k\<close> encoder is called, with the turn budget \<open>J = 4\<close>.
\<close>

definition turn_state :: planner where
  "turn_state = with_registry (init\<lparr> J := 4 \<rparr>) 10 []
     [''T_0_0_0'' \<mapsto> 1, ''T_1_0_0'' \<mapsto> 2, ''T_2_0_0'' \<mapsto> 3, ''T_3_0_0'' \<mapsto> 4,
      ''T_4_0_0'' \<mapsto> 5, ''T_0_0_1'' \<mapsto> 6, ''T_1_0_1'' \<mapsto> 7, ''T_2_0_1'' \<mapsto> 8,
      ''T_3_0_1'' \<mapsto> 9, ''T_4_0_1'' \<mapsto> 10]"

subsection \<open>The edges the decoder follows\<close>

text \<open>The key of the edge variable of line \<open>k\<close> that leaves the cell \<open>c\<close> in direction \<open>d\<close>.\<close>

definition dir_key :: "int \<Rightarrow> int \<times> int \<Rightarrow> string \<Rightarrow> arg list" where
  "dir_key k c d = [S ''D'', I (fst c), I (snd c), I k, S d]"



text \<open>
  A grid three cells wide and one cell high, one line from \<open>(0, 0)\<close> to \<open>(2, 0)\<close>, no turn
  allowed, and the planner after \<^verbatim>\<open>encode_to_sat\<close> on it.
\<close>

definition inst31 :: planner where
  "inst31 = init\<lparr> scenario := 1, N := 3, M := 1, K := 1, J := 0,
     starts := [(0, 0)], ends := [(2, 0)] \<rparr>"

definition inst31_encoded :: planner where
  "inst31_encoded = with_registry inst31 16
     [[1], [3], [- 4, 1], [- 5, 1], [- 6, 1], [- 7, 1], [5], [- 8], [- 5, 2], [- 8, 2],
      [- 9, 2], [- 10, 2], [- 11, 2], [- 2, 8, 9], [- 8, - 9], [- 2, 12, 5], [- 12, - 5],
      [2, - 8], [2, - 9], [2, - 12], [2, - 5], [- 8, 1], [- 9, 3], [- 12, 3], [- 13, 3],
      [- 14, 3], [- 15, 3], [- 12], [- 13], [- 14], [- 15], [9], [- 12, 2],
      [- 12, - 8, - 16], [- 12, - 9, 16], [- 5, - 8, 16], [- 5, - 9, - 16], [- 16]]
     [''C_0_0_0'' \<mapsto> 1, ''C_1_0_0'' \<mapsto> 2, ''C_2_0_0'' \<mapsto> 3,
      ''D_0_0_0_L'' \<mapsto> 4, ''D_0_0_0_R'' \<mapsto> 5, ''D_0_0_0_U'' \<mapsto> 6,
      ''D_0_0_0_D'' \<mapsto> 7, ''D_1_0_0_L'' \<mapsto> 8, ''D_1_0_0_R'' \<mapsto> 9,
      ''D_1_0_0_U'' \<mapsto> 10, ''D_1_0_0_D'' \<mapsto> 11, ''D_2_0_0_L'' \<mapsto> 12,
      ''D_2_0_0_R'' \<mapsto> 13, ''D_2_0_0_U'' \<mapsto> 14, ''D_2_0_0_D'' \<mapsto> 15,
      ''T_1_0_0'' \<mapsto> 16]"

subsection \<open>The turn clauses, as the specification words them\<close>





subsection \<open>What the decoder leaves as it was\<close>

text \<open>
  Every edge variable of every line at every cell of the grid is registered, in all four
  directions.
\<close>

definition grid_registered :: "planner \<Rightarrow> bool" where
  "grid_registered st \<longleftrightarrow>
     (\<forall>k x y d. 0 \<le> k \<and> k < K st \<and> in_bounds st x y \<and> d \<in> set [''L'', ''R'', ''U'', ''D'']
        \<longrightarrow> var_name (dir_key k (x, y) d) \<in> dom (var_map st))"

text \<open>No edge variable asserted true leads from a cell of the grid to a cell outside it.\<close>

definition grid_closed :: "int set \<Rightarrow> planner \<Rightarrow> bool" where
  "grid_closed A st \<longleftrightarrow>
     (\<forall>k x y d v. 0 \<le> k \<and> k < K st \<and> in_bounds st x y \<and> d \<in> set [''L'', ''R'', ''U'', ''D'']
        \<and> var_map st (var_name (dir_key k (x, y) d)) = Some v \<and> v \<in> A
        \<longrightarrow> in_bounds st (fst (move d (x, y))) (snd (move d (x, y))))"

definition starts_in_grid :: "planner \<Rightarrow> bool" where
  "starts_in_grid st \<longleftrightarrow> (\<forall>c\<in>set (starts st). in_bounds st (fst c) (snd c))"

text \<open>
  The set \<^verbatim>\<open>assignments\<close> that \<^verbatim>\<open>decode_sat_output\<close> reads from the lines after the
  first; empty when there is no file or a token is not a number.
\<close>

definition asserted_true :: "(string \<Rightarrow> int option) \<Rightarrow> string list option \<Rightarrow> int set" where
  "asserted_true py_int sat_output =
     (case sat_output of
        None \<Rightarrow> {}
      | Some lines \<Rightarrow>
          (case parse_lines py_int (tl lines) {} of
             Inl err \<Rightarrow> {}
           | Inr assignments \<Rightarrow> assignments))"
section \<open>Properties\<close>

subsection \<open>The clause store\<close>

lemma add_clause_simps [simp]:
  "var_map (add_clause c st) = var_map st"
  "var_counter (add_clause c st) = var_counter st"
  "N (add_clause c st) = N st" "M (add_clause c st) = M st" "K (add_clause c st) = K st"
  "J (add_clause c st) = J st" "scenario (add_clause c st) = scenario st"
  "starts (add_clause c st) = starts st" "ends (add_clause c st) = ends st"
  "popular (add_clause c st) = popular st" "P (add_clause c st) = P st"
  by (simp_all add: add_clause_def)

lemma fold_add_clause:
  "fold (\<lambda>x. add_clause (f x)) xs st =
     st\<lparr> clauses := clauses st @ filter (\<lambda>c. c \<noteq> []) (map f xs) \<rparr>"
  by (induction xs arbitrary: st) (simp_all add: add_clause_def)

lemma fold_clauses_append:
  "fold (\<lambda>x s. s\<lparr> clauses := clauses s @ g x \<rparr>) xs st =
     st\<lparr> clauses := clauses st @ concat (map g xs) \<rparr>"
  by (induction xs arbitrary: st) simp_all

lemma encode_at_most_one_eq:
  "encode_at_most_one vs st =
     st\<lparr> clauses := clauses st @
        concat (map (\<lambda>i. map (\<lambda>j. [- (vs ! i), - (vs ! j)]) [i + 1..<length vs])
                    [0..<length vs]) \<rparr>"
proof -
  have inner: "\<And>i. fold (\<lambda>j. add_clause [- (vs ! i), - (vs ! j)]) [i + 1..<length vs]
      = (\<lambda>s. s\<lparr> clauses := clauses s @ map (\<lambda>j. [- (vs ! i), - (vs ! j)]) [i + 1..<length vs] \<rparr>)"
    by (rule ext) (simp add: fold_add_clause)
  show ?thesis
    unfolding encode_at_most_one_def inner by (rule fold_clauses_append)
qed

subsection \<open>Every method only extends the planner\<close>

lemma extends_refl [simp]: "extends st st"
  by (simp add: extends_def same_instance_def)

lemma extends_trans:
  assumes ab: "extends a b" and bc: "extends b c"
  shows "extends a c"
proof -
  have fresh: "var_counter a < v" if "var_map a name = None" "var_map c name = Some v" for name v
  proof (cases "var_map b name")
    case None
    then have "var_counter b < v" using bc that by (simp add: extends_def)
    then show ?thesis using ab by (simp add: extends_def)
  next
    case (Some w)
    then have "var_map c name = Some w"
      using bc by (auto simp: extends_def map_le_def dom_def)
    then show ?thesis using ab that Some by (simp add: extends_def)
  qed
  have "var_map a \<subseteq>\<^sub>m var_map c"
    using ab bc by (auto simp: extends_def intro: map_le_trans)
  moreover have "prefix (clauses a) (clauses c)"
    using ab bc by (auto simp: extends_def)
  moreover have "same_instance a c" "var_counter a \<le> var_counter c" "reg_inv a \<longrightarrow> reg_inv c"
    using ab bc by (auto simp: extends_def same_instance_def)
  ultimately show ?thesis using fresh by (simp add: extends_def)
qed

lemma reg_inv_fresh:
  assumes "reg_inv st" "var_map st name = None"
  shows "reg_inv (st\<lparr> var_counter := var_counter st + 1,
                      var_map := (var_map st)(name \<mapsto> var_counter st + 1) \<rparr>)"
proof -
  let ?m = "var_map st" and ?c = "var_counter st"
  have fin: "finite (dom ?m)" and inj: "inj_on ?m (dom ?m)" and ran: "ran ?m = {1..?c}"
    and c: "0 \<le> ?c"
    using assms(1) by (simp_all add: reg_inv_def)
  have notin: "Some (?c + 1) \<notin> ?m ` dom ?m"
  proof
    assume "Some (?c + 1) \<in> ?m ` dom ?m"
    then have "?c + 1 \<in> ran ?m" by (auto simp: ran_def)
    then show False using ran by simp
  qed
  have "inj_on (?m(name \<mapsto> ?c + 1)) (insert name (dom ?m))"
  proof (rule inj_onI)
    fix a b assume a: "a \<in> insert name (dom ?m)" and b: "b \<in> insert name (dom ?m)"
      and eq: "(?m(name \<mapsto> ?c + 1)) a = (?m(name \<mapsto> ?c + 1)) b"
    show "a = b"
    proof (cases "a = name"; cases "b = name")
      assume "a = name" "b \<noteq> name"
      then have "Some (?c + 1) = ?m b" "b \<in> dom ?m" using eq b by auto
      then show ?thesis using notin by (metis imageI)
    next
      assume "a \<noteq> name" "b = name"
      then have "Some (?c + 1) = ?m a" "a \<in> dom ?m" using eq a by auto
      then show ?thesis using notin by (metis imageI)
    next
      assume "a \<noteq> name" "b \<noteq> name"
      then have "?m a = ?m b" "a \<in> dom ?m" "b \<in> dom ?m" using eq a b by auto
      then show ?thesis using inj by (auto dest: inj_onD)
    qed simp
  qed
  moreover have "ran (?m(name \<mapsto> ?c + 1)) = {1..?c + 1}"
    using assms(2) ran c by (auto simp: ran_map_upd)
  ultimately show ?thesis
    using fin c by (simp add: reg_inv_def)
qed

lemma get_var_extends: "extends st (snd (get_var args st))"
proof (cases "var_map st (var_name args)")
  case None
  then show ?thesis
    using reg_inv_fresh [of st "var_name args"]
    by (auto simp: get_var_def extends_def same_instance_def map_le_def)
next
  case (Some v)
  then show ?thesis by (simp add: get_var_def)
qed

lemma add_clause_extends: "extends st (add_clause c st)"
  by (auto simp: add_clause_def extends_def same_instance_def reg_inv_def)

lemma fold_extends:
  assumes "\<And>x s. extends s (f x s)"
  shows "extends st (fold f xs st)"
proof (induction xs arbitrary: st)
  case Nil show ?case by simp
next
  case (Cons x xs)
  show ?case using assms [of st x] Cons [of "f x st"] by (auto intro: extends_trans)
qed

lemma fold_pair_extends:
  assumes "\<And>x acc s. extends s (snd (f x (acc, s)))"
  shows "extends st (snd (fold f xs (acc, st)))"
proof (induction xs arbitrary: acc st)
  case Nil show ?case by simp
next
  case (Cons x xs)
  obtain acc' st' where eq: "f x (acc, st) = (acc', st')" by (cases "f x (acc, st)")
  have "extends st st'" using assms [of st x acc] eq by simp
  moreover have "extends st' (snd (fold f xs (acc', st')))" by (rule Cons)
  ultimately show ?case using eq by (auto intro: extends_trans)
qed


lemma get_var_ext: "extends s t \<Longrightarrow> extends s (snd (get_var a t))"
  using get_var_extends extends_trans by blast

lemma add_clause_ext: "extends s t \<Longrightarrow> extends s (add_clause c t)"
  using add_clause_extends extends_trans by blast

lemma fold_ext:
  assumes "\<And>x u. extends u (f x u)" and "extends s t"
  shows "extends s (fold f xs t)"
  using fold_extends [of f t xs, OF assms(1)] assms(2) extends_trans by blast

lemma fold_pair_ext:
  assumes "\<And>x acc u. extends u (snd (f x (acc, u)))" and "extends s t"
  shows "extends s (snd (fold f xs (acc, t)))"
  using fold_pair_extends [of f t xs acc, OF assms(1)] assms(2) extends_trans by blast

lemmas ext_rules = get_var_ext add_clause_ext extends_refl

lemma encode_at_most_one_ext: "extends s t \<Longrightarrow> extends s (encode_at_most_one vs t)"
  unfolding encode_at_most_one_def
  by (intro fold_ext add_clause_ext extends_refl)

lemma encode_exactly_one_ext: "extends s t \<Longrightarrow> extends s (encode_exactly_one vs t)"
  unfolding encode_exactly_one_def
  by (auto intro!: encode_at_most_one_ext add_clause_ext)


lemma cell_vars_of_ext: "extends s t \<Longrightarrow> extends s (snd (cell_vars_of x y t))"
  unfolding cell_vars_of_def
  by (rule fold_pair_ext) (auto simp: case_prod_beta intro!: ext_rules)

lemma encode_cell_constraints_ext: "extends s t \<Longrightarrow> extends s (encode_cell_constraints t)"
  unfolding encode_cell_constraints_def
  by (intro fold_ext) (auto simp: case_prod_beta intro!: encode_at_most_one_ext cell_vars_of_ext)

lemma dir_implies_cell_ext: "extends s t \<Longrightarrow> extends s (dir_implies_cell k cv x y t)"
  unfolding dir_implies_cell_def
  by (rule fold_ext) (auto simp: case_prod_beta intro!: ext_rules)

lemma collect_out_dirs_ext: "extends s t \<Longrightarrow> extends s (snd (collect_out_dirs k x y t))"
  unfolding collect_out_dirs_def
  by (rule fold_pair_ext) (auto simp: case_prod_beta intro!: ext_rules)

lemma collect_inc_dirs_ext: "extends s t \<Longrightarrow> extends s (snd (collect_inc_dirs k x y t))"
  unfolding collect_inc_dirs_def
  by (rule fold_pair_ext) (auto simp: case_prod_beta intro!: ext_rules)

lemma no_incoming_ext: "extends s t \<Longrightarrow> extends s (no_incoming k x y t)"
  unfolding no_incoming_def
  by (rule fold_ext) (auto simp: case_prod_beta intro!: ext_rules)

lemma no_outgoing_ext: "extends s t \<Longrightarrow> extends s (no_outgoing k x y t)"
  unfolding no_outgoing_def
  by (rule fold_ext) (auto simp: case_prod_beta intro!: ext_rules)

lemma flow_clauses_ext: "extends s t \<Longrightarrow> extends s (flow_clauses k x y t)"
  unfolding flow_clauses_def
  by (rule fold_ext) (auto simp: case_prod_beta intro!: ext_rules)

lemma path_start_cell_ext: "extends s t \<Longrightarrow> extends s (path_start_cell k x y t)"
  unfolding path_start_cell_def
  by (auto simp: case_prod_beta Let_def
      intro!: no_incoming_ext encode_exactly_one_ext collect_out_dirs_ext)

lemma path_end_cell_ext: "extends s t \<Longrightarrow> extends s (path_end_cell k x y t)"
  unfolding path_end_cell_def
  by (auto simp: case_prod_beta Let_def
      intro!: no_outgoing_ext encode_exactly_one_ext collect_inc_dirs_ext)

lemma path_mid_cell_ext: "extends s t \<Longrightarrow> extends s (path_mid_cell k cv x y t)"
  unfolding path_mid_cell_def
  by (auto simp: case_prod_beta Let_def simp del: fold_append
      intro!: fold_ext add_clause_ext encode_at_most_one_ext collect_out_dirs_ext
        collect_inc_dirs_ext)

lemma encode_path_cell_ext: "extends s t \<Longrightarrow> extends s (encode_path_cell k b e x y t)"
  unfolding encode_path_cell_def
  by (auto simp: case_prod_beta Let_def
      intro!: flow_clauses_ext path_start_cell_ext path_end_cell_ext path_mid_cell_ext
        dir_implies_cell_ext get_var_ext)

lemma encode_path_line_ext: "extends s t \<Longrightarrow> extends s (encode_path_line k b e t)"
  unfolding encode_path_line_def
  by (auto simp: case_prod_beta Let_def
      intro!: fold_ext encode_path_cell_ext add_clause_ext get_var_ext)

lemma encode_path_lines_ext:
  "extends s t \<Longrightarrow> encode_path_lines ks t = Inr t' \<Longrightarrow> extends s t'"
proof (induction ks arbitrary: t)
  case Nil
  then show ?case by simp
next
  case (Cons k ks)
  then show ?case
    by (auto split: if_splits intro: encode_path_line_ext)
qed

lemma encode_path_constraints_ext:
  "extends s t \<Longrightarrow> encode_path_constraints t = Inr t' \<Longrightarrow> extends s t'"
  unfolding encode_path_constraints_def by (rule encode_path_lines_ext)


lemma seq_cell_ext: "extends s t \<Longrightarrow> extends s (seq_cell vid vs k i j t)"
  unfolding seq_cell_def
  by (auto simp: case_prod_beta Let_def intro!: ext_rules)

lemma valid_states_of_ext: "extends s t \<Longrightarrow> extends s (snd (valid_states_of vid n k t))"
  unfolding valid_states_of_def
  by (rule fold_pair_ext) (auto simp: case_prod_beta intro!: ext_rules)

lemma sequential_counter_ext: "extends s t \<Longrightarrow> extends s (sequential_counter vid vs k t)"
  unfolding sequential_counter_def
  by (auto simp: case_prod_beta Let_def
      intro!: add_clause_ext valid_states_of_ext fold_ext seq_cell_ext)

lemma encode_at_most_k_simple_ext:
  "extends s t \<Longrightarrow> extends s (encode_at_most_k_simple vid vs k t)"
  unfolding encode_at_most_k_simple_def
  by (auto simp: Let_def intro!: fold_ext add_clause_ext sequential_counter_ext)

lemma turn_clause_ext: "extends s t \<Longrightarrow> extends s (turn_clause k tv iv d x y t)"
  unfolding turn_clause_def
  by (rule fold_ext) (auto simp: case_prod_beta Let_def intro!: ext_rules)

lemma encode_turn_cell_ext: "extends s t \<Longrightarrow> extends s (snd (encode_turn_cell k x y (acc, t)))"
  unfolding encode_turn_cell_def
  by (auto simp: case_prod_beta Let_def intro!: fold_ext turn_clause_ext get_var_ext)

lemma turn_cells_ext: "extends s t \<Longrightarrow> extends s (snd (turn_cells k b e t))"
proof -
  have inner: "extends u (snd (fold (\<lambda>y acc. if (x, y) = b \<or> (x, y) = e then acc
                  else encode_turn_cell k x y acc) ys (acc, u)))" for x ys acc u
    by (rule fold_pair_ext) (auto intro!: encode_turn_cell_ext)
  assume "extends s t"
  then show ?thesis
    unfolding turn_cells_def by (rule fold_pair_ext [rotated]) (rule inner)
qed

lemma encode_turn_line_ext: "extends s t \<Longrightarrow> extends s (encode_turn_line vid k b e t)"
  unfolding encode_turn_line_def
  by (auto simp: case_prod_beta Let_def intro!: encode_at_most_k_simple_ext turn_cells_ext)

lemma encode_turn_lines_ext:
  "extends s t \<Longrightarrow> encode_turn_lines list_id ks t = Inr t' \<Longrightarrow> extends s t'"
proof (induction ks arbitrary: t)
  case Nil
  then show ?case by simp
next
  case (Cons k ks)
  then show ?case
    by (auto split: if_splits intro: encode_turn_line_ext)
qed

lemma encode_turn_constraints_ext:
  "extends s t \<Longrightarrow> encode_turn_constraints list_id t = Inr t' \<Longrightarrow> extends s t'"
  unfolding encode_turn_constraints_def by (rule encode_turn_lines_ext)

lemma encode_popular_constraints_ext:
  "extends s t \<Longrightarrow> extends s (encode_popular_constraints t)"
  unfolding encode_popular_constraints_def
  by (auto simp: case_prod_beta intro!: fold_ext add_clause_ext cell_vars_of_ext)

lemma find_dir_ext: "extends s t \<Longrightarrow> extends s (snd (find_dir ds A k x y t))"
  by (induction ds arbitrary: t) (auto simp: case_prod_beta Let_def intro!: get_var_ext)


lemma walk_ext:
  assumes "walk A k e c path t = Some r"
  shows "extends t (snd r)"
proof (rule walk.raw_induct [where P = "\<lambda>A k e c path t r. extends t (snd r)", OF _ assms],
    goal_cases)
  case (1 w A k e c path t r)
  show ?case
  proof (cases "c = e")
    case True
    then show ?thesis using 1(2) by auto
  next
    case False
    obtain d' u where fd: "find_dir [''L'', ''R'', ''U'', ''D''] A k (fst c) (snd c) t = (d', u)"
      by (cases "find_dir [''L'', ''R'', ''U'', ''D''] A k (fst c) (snd c) t")
    have tu: "extends t u"
      using find_dir_ext [OF extends_refl, of t "[''L'', ''R'', ''U'', ''D'']" A k "fst c" "snd c"] fd
      by simp
    show ?thesis
    proof (cases d')
      case None
      then show ?thesis using 1(2) False fd tu by auto
    next
      case (Some d)
      then have "w A k e (move d c) (path @ [d]) u = Some r"
        using 1(2) False fd by simp
      then have "extends u (snd r)" by (rule 1(1))
      then show ?thesis using tu extends_trans by blast
    qed
  qed
qed

lemma decode_lines_ext:
  "decode_lines A ks paths t = Some (Inr (paths', t')) \<Longrightarrow> extends t t'"
proof (induction ks arbitrary: paths t)
  case Nil
  then show ?case by simp
next
  case (Cons k ks)
  then show ?case
    by (auto split: if_splits option.splits dest!: walk_ext intro: extends_trans simp: case_prod_beta)
qed

subsection \<open>Evaluating the planner on concrete data\<close>

lemma with_registry_fields:
  "scenario (with_registry b c cl vm) = scenario b" "N (with_registry b c cl vm) = N b"
  "M (with_registry b c cl vm) = M b" "K (with_registry b c cl vm) = K b"
  "J (with_registry b c cl vm) = J b" "P (with_registry b c cl vm) = P b"
  "starts (with_registry b c cl vm) = starts b" "ends (with_registry b c cl vm) = ends b"
  "popular (with_registry b c cl vm) = popular b"
  "var_counter (with_registry b c cl vm) = c" "clauses (with_registry b c cl vm) = cl"
  "var_map (with_registry b c cl vm) = vm"
  by (simp_all add: with_registry_def)

lemma get_var_with_registry:
  "get_var args (with_registry b c cl vm) =
     (case vm (var_name args) of
        None \<Rightarrow> (c + 1, with_registry b (c + 1) cl (vm(var_name args \<mapsto> c + 1)))
      | Some v \<Rightarrow> (v, with_registry b c cl vm))"
  by (simp add: get_var_def with_registry_def split: option.splits)

lemma add_clause_with_registry:
  "add_clause l (with_registry b c cl vm) =
     (if l \<noteq> [] then with_registry b c (cl @ [l]) vm else with_registry b c cl vm)"
  by (simp add: add_clause_def with_registry_def)

lemma inst12_fields:
  "scenario inst12 = 1" "N inst12 = 1" "M inst12 = 2" "K inst12 = 1" "J inst12 = 0"
  "starts inst12 = [(0, 0)]" "ends inst12 = [(0, 1)]" "popular inst12 = []"
  by (simp_all add: inst12_def init_def)

lemma str_int_small: "str_int 0 = ''0''" "str_int 1 = ''1''" "str_int 2 = ''2''" "str_int (- 1) = ''-1''"
  by (simp_all add: str_int_def str_nat.simps digit_char_def)

lemma py_range_small: "py_range 1 = [0]" "py_range 2 = [0, 1]" "py_range 3 = [0, 1, 2]" "py_range 0 = []"
  by (simp_all add: py_range_def upt_rec)

lemmas eval_registry = str_int_small py_range_small var_name_def get_var_with_registry add_clause_with_registry with_registry_fields

lemmas eval_path = eval_registry encode_at_most_one_def
  encode_exactly_one_def cell_vars_of_def encode_cell_constraints_def directions_def in_bounds_def
  dir_implies_cell_def collect_out_dirs_def collect_inc_dirs_def no_incoming_def
  path_start_cell_def no_outgoing_def path_end_cell_def path_mid_cell_def flow_clauses_def
  encode_path_cell_def

lemmas eval_turn = encode_turn_constraints_def encode_turn_line_def turn_cells_def
  encode_turn_cell_def turn_clause_def encode_at_most_k_simple_def

lemma reset_with_registry:
  "st\<lparr> var_counter := 0, clauses := [], var_map := Map.empty \<rparr> = with_registry st 0 [] Map.empty"
  by (simp add: with_registry_def)

lemma encode_to_sat_unfold:
  "encode_to_sat list_id st =
     (case encode_path_constraints (encode_cell_constraints (with_registry st 0 [] Map.empty)) of
        Inl err \<Rightarrow> Inl err
      | Inr st2 \<Rightarrow>
          (case encode_turn_constraints list_id st2 of
             Inl err \<Rightarrow> Inl err
           | Inr st3 \<Rightarrow>
               Inr (cnf_text (encode_popular_constraints st3), encode_popular_constraints st3)))"
  by (simp add: encode_to_sat_def Let_def reset_with_registry split: sum.splits)

lemmas eval_encode = encode_to_sat_unfold eval_path eval_turn encode_path_constraints_def
  encode_path_line_def encode_popular_constraints_def upt_rec

lemma inst12_encode: "encode_to_sat list_id inst12 = Inr (cnf_text inst12_encoded, inst12_encoded)"
  unfolding inst12_encoded_def by (simp add: eval_encode inst12_fields)

subsection \<open>The variable registry\<close>

lemma digit_cases: "d < 10 \<Longrightarrow> d \<in> {0, 1, 2, 3, 4, 5, 6, 7, 8, 9 :: nat}"
  by auto

lemma digit_val_char: "d < 10 \<Longrightarrow> digit_val (digit_char d) = d"
  by (drule digit_cases) (auto simp: digit_char_def digit_val_def)

lemma digit_char_plain: "d < 10 \<Longrightarrow> digit_char d \<noteq> CHR ''_'' \<and> digit_char d \<noteq> CHR ''-''"
  by (drule digit_cases) (auto simp: digit_char_def)

lemma digits_val_str_nat: "digits_val (str_nat n) = n"
proof (induction n rule: str_nat.induct)
  case (1 n)
  show ?case
  proof (cases "n < 10")
    case True
    then show ?thesis
      by (simp add: str_nat.simps [of n] digits_val_def digit_val_char)
  next
    case False
    then have "digits_val (str_nat (n div 10)) = n div 10" using 1 by simp
    moreover have "digit_val (digit_char (n mod 10)) = n mod 10"
      by (simp add: digit_val_char)
    ultimately show ?thesis
      using False by (simp add: str_nat.simps [of n] digits_val_def)
  qed
qed

lemma str_nat_inj: "str_nat a = str_nat b \<Longrightarrow> a = b"
  by (metis digits_val_str_nat)

lemma str_nat_plain: "c \<in> set (str_nat n) \<Longrightarrow> c \<noteq> CHR ''_'' \<and> c \<noteq> CHR ''-''"
proof (induction n rule: str_nat.induct)
  case (1 n)
  show ?case
  proof (cases "n < 10")
    case True
    then show ?thesis using 1(2) digit_char_plain [of n]
      by (simp add: str_nat.simps [of n])
  next
    case False
    then show ?thesis
      using 1 digit_char_plain [of "n mod 10"]
      by (auto simp: str_nat.simps [of n])
  qed
qed

lemma str_nat_nonempty: "str_nat n \<noteq> []"
  by (subst str_nat.simps) simp

lemma str_int_inj: "str_int a = str_int b \<Longrightarrow> a = b"
proof -
  assume eq: "str_int a = str_int b"
  have hd_nat: "hd (str_nat n) \<noteq> CHR ''-''" for n
    using str_nat_plain [of "hd (str_nat n)" n] str_nat_nonempty [of n] by simp
  show ?thesis
  proof (cases "a < 0"; cases "b < 0")
    assume "a < 0" "b < 0"
    then have "str_nat (nat (- a)) = str_nat (nat (- b))" using eq by (simp add: str_int_def)
    then have "nat (- a) = nat (- b)" by (rule str_nat_inj)
    then show ?thesis using \<open>a < 0\<close> \<open>b < 0\<close> by simp
  next
    assume "a < 0" "\<not> b < 0"
    then have "CHR ''-'' # str_nat (nat (- a)) = str_nat (nat b)" using eq by (simp add: str_int_def)
    then have "hd (str_nat (nat b)) = CHR ''-''" by (metis list.sel(1))
    then show ?thesis using hd_nat by simp
  next
    assume "\<not> a < 0" "b < 0"
    then have "str_nat (nat a) = CHR ''-'' # str_nat (nat (- b))" using eq by (simp add: str_int_def)
    then have "hd (str_nat (nat a)) = CHR ''-''" by (metis list.sel(1))
    then show ?thesis using hd_nat by simp
  next
    assume "\<not> a < 0" "\<not> b < 0"
    then have "str_nat (nat a) = str_nat (nat b)" using eq by (simp add: str_int_def)
    then have "nat a = nat b" by (rule str_nat_inj)
    then show ?thesis using \<open>\<not> a < 0\<close> \<open>\<not> b < 0\<close> by simp
  qed
qed

lemma str_int_plain: "CHR ''_'' \<notin> set (str_int i)"
  using str_nat_plain by (auto simp: str_int_def)

lemma takeWhile_sep: "c \<notin> set x \<Longrightarrow> takeWhile (\<lambda>a. a \<noteq> c) (x @ c # r) = x"
  by (induction x) auto

lemma takeWhile_all: "c \<notin> set x \<Longrightarrow> takeWhile (\<lambda>a. a \<noteq> c) x = x"
  by (induction x) auto

lemma sep_unique:
  assumes "x @ c # r = x' @ c # r'" "c \<notin> set x" "c \<notin> set x'"
  shows "x = x' \<and> r = r'"
proof -
  have "takeWhile (\<lambda>a. a \<noteq> c) (x @ c # r) = x" "takeWhile (\<lambda>a. a \<noteq> c) (x' @ c # r') = x'"
    using assms(2,3) by (simp_all add: takeWhile_sep)
  then have "x = x'" using assms(1) by simp
  then show ?thesis using assms(1) by simp
qed

lemma name3_inj:
  assumes "str_int x @ CHR ''_'' # str_int y @ CHR ''_'' # str_int k @ r
         = str_int x' @ CHR ''_'' # str_int y' @ CHR ''_'' # str_int k' @ r'"
    and "r = [] \<or> hd r = CHR ''_''" "r' = [] \<or> hd r' = CHR ''_''"
  shows "x = x' \<and> y = y' \<and> k = k' \<and> r = r'"
proof -
  from sep_unique [OF assms(1) str_int_plain str_int_plain]
  have x: "str_int x = str_int x'"
    and 1: "str_int y @ CHR ''_'' # str_int k @ r = str_int y' @ CHR ''_'' # str_int k' @ r'"
    by simp_all
  from sep_unique [OF 1 str_int_plain str_int_plain]
  have y: "str_int y = str_int y'" and 2: "str_int k @ r = str_int k' @ r'" by simp_all
  have tw: "takeWhile (\<lambda>a. a \<noteq> CHR ''_'') (str_int i @ q) = str_int i"
    if "q = [] \<or> hd q = CHR ''_''" for i q
  proof (cases q)
    case Nil
    then show ?thesis using str_int_plain [of i] by (simp add: takeWhile_all)
  next
    case (Cons a q')
    then have "a = CHR ''_''" using that by simp
    then show ?thesis using Cons str_int_plain [of i] by (simp add: takeWhile_sep)
  qed
  have "str_int k = str_int k'"
    using tw [OF assms(2), of k] tw [OF assms(3), of k'] 2 by simp
  then show ?thesis using x y 2 by (auto dest: str_int_inj)
qed

lemma encoder_key_inj:
  assumes "encoder_key a" "encoder_key b" "var_name a = var_name b"
  shows "a = b"
proof -
  have shape: "(\<exists>t x y k. t \<in> {''C'', ''T'', ''SEQ''} \<and> args = [S t, I x, I y, I k])
      \<or> (\<exists>x y k d. args = [S ''D'', I x, I y, I k, S d])" if "encoder_key args" for args
    using that by (induction args rule: encoder_key.induct) auto
  have tag: "takeWhile (\<lambda>c. c \<noteq> CHR ''_'') (var_name (S t # I x # rest)) = t"
    if "CHR ''_'' \<notin> set t" for t x rest
    using that takeWhile_sep [of "CHR ''_''" t] by (cases rest) (simp_all add: var_name_def)
  from shape [OF assms(1)] shape [OF assms(2)] show ?thesis
  proof (elim disjE exE conjE)
    fix t x y k t' x' y' k'
    assume t: "t \<in> {''C'', ''T'', ''SEQ''}" and a: "a = [S t, I x, I y, I k]"
      and t': "t' \<in> {''C'', ''T'', ''SEQ''}" and b: "b = [S t', I x', I y', I k']"
    have "CHR ''_'' \<notin> set t" "CHR ''_'' \<notin> set t'" using t t' by auto
    then have tt: "t = t'" using tag [of t x "[I y, I k]"] tag [of t' x' "[I y', I k']"] assms(3) a b
      by simp
    then have "str_int x @ CHR ''_'' # str_int y @ CHR ''_'' # str_int k @ []
         = str_int x' @ CHR ''_'' # str_int y' @ CHR ''_'' # str_int k' @ []"
      using assms(3) a b by (simp add: var_name_def)
    from name3_inj [OF this] show ?thesis using a b tt by simp
  next
    fix t x y k x' y' k' d'
    assume t: "t \<in> {''C'', ''T'', ''SEQ''}" and a: "a = [S t, I x, I y, I k]"
      and b: "b = [S ''D'', I x', I y', I k', S d']"
    have "CHR ''_'' \<notin> set t" using t by auto
    then have "t = ''D''"
      using tag [of t x "[I y, I k]"] tag [of "''D''" x' "[I y', I k', S d']"] assms(3) a b
      by simp
    then show ?thesis using t by simp
  next
    fix t x y k x' y' k' d'
    assume t: "t \<in> {''C'', ''T'', ''SEQ''}" and b: "b = [S t, I x, I y, I k]"
      and a: "a = [S ''D'', I x', I y', I k', S d']"
    have "CHR ''_'' \<notin> set t" using t by auto
    then have "t = ''D''"
      using tag [of t x "[I y, I k]"] tag [of "''D''" x' "[I y', I k', S d']"] assms(3) a b
      by simp
    then show ?thesis using t by simp
  next
    fix x y k d x' y' k' d'
    assume a: "a = [S ''D'', I x, I y, I k, S d]" and b: "b = [S ''D'', I x', I y', I k', S d']"
    then have "str_int x @ CHR ''_'' # str_int y @ CHR ''_'' # str_int k @ (CHR ''_'' # d)
         = str_int x' @ CHR ''_'' # str_int y' @ CHR ''_'' # str_int k' @ (CHR ''_'' # d')"
      using assms(3) by (simp add: var_name_def)
    from name3_inj [OF this] show ?thesis using a b by simp
  qed
qed

lemma get_vars_snoc:
  "get_vars (as @ [a]) st =
     (let (vs, st') = get_vars as st; (v, st'') = get_var a st' in (vs @ [v], st''))"
  by (induction as arbitrary: st) (simp_all add: case_prod_beta Let_def)

lemma reg_inv_card:
  assumes "reg_inv st"
  shows "var_counter st = int (card (dom (var_map st)))"
proof -
  let ?m = "var_map st"
  have inj: "inj_on ?m (dom ?m)" and ran: "ran ?m = {1..var_counter st}"
    and c: "0 \<le> var_counter st"
    using assms by (simp_all add: reg_inv_def)
  have "inj_on (\<lambda>k. the (?m k)) (dom ?m)"
    by (rule inj_onI) (metis inj domD inj_onD option.sel domI)
  moreover have "(\<lambda>k. the (?m k)) ` dom ?m = ran ?m"
    by (auto simp: ran_def dom_def image_iff) force
  ultimately have "card (ran ?m) = card (dom ?m)"
    by (metis card_image)
  then show ?thesis using ran c by simp
qed

lemma reg_inv_inj:
  assumes "reg_inv st" "var_map st a = Some v" "var_map st b = Some v"
  shows "a = b"
  using assms by (auto simp: reg_inv_def dest!: inj_onD [where x = a and y = b])

lemma run_ok_get_vars:
  assumes "var_counter st = 0" "var_map st = Map.empty"
  shows "run_ok keys (fst (get_vars keys st)) (snd (get_vars keys st))"
proof (induction keys rule: rev_induct)
  case Nil
  show ?case using assms by (simp add: run_ok_def reg_inv_def)
next
  case (snoc a keys)
  obtain ids st' where g: "get_vars keys st = (ids, st')" by (cases "get_vars keys st")
  then have ok: "run_ok keys ids st'" using snoc by simp
  then have inv: "reg_inv st'" and dom: "dom (var_map st') = var_name ` set keys"
    and len: "length ids = length keys"
    and look: "\<forall>i<length keys. var_map st' (var_name (keys ! i)) = Some (ids ! i)"
    and first: "\<forall>i<length keys. var_name (keys ! i) \<notin> var_name ` set (take i keys)
           \<longrightarrow> ids ! i = 1 + int (card (var_name ` set (take i keys)))"
    by (simp_all add: run_ok_def)
  obtain v st'' where gv: "get_var a st' = (v, st'')" by (cases "get_var a st'")
  have res: "get_vars (keys @ [a]) st = (ids @ [v], st'')"
    using g gv by (simp add: get_vars_snoc)
  have ext: "extends st' st''" using get_var_extends [of st' a] gv by simp
  then have inv'': "reg_inv st''" using inv by (simp add: extends_def)
  have va: "var_map st'' (var_name a) = Some v"
    using gv by (auto simp: get_var_def split: option.splits)
  have "dom (var_map st'') = insert (var_name a) (dom (var_map st'))"
    using gv by (auto simp: get_var_def split: option.splits)
  then have dom'': "dom (var_map st'') = var_name ` set (keys @ [a])"
    using dom by auto
  have look'': "var_map st'' (var_name ((keys @ [a]) ! i)) = Some ((ids @ [v]) ! i)"
    if "i < length (keys @ [a])" for i
  proof (cases "i < length keys")
    case True
    then have "var_map st' (var_name (keys ! i)) = Some (ids ! i)" using look by simp
    then have "var_map st'' (var_name (keys ! i)) = Some (ids ! i)"
      using ext by (auto simp: extends_def map_le_def dom_def)
    then show ?thesis using True len by (simp add: nth_append)
  next
    case False
    then have "i = length keys" using that by simp
    then show ?thesis using va len by (simp add: nth_append)
  qed
  have first'': "(ids @ [v]) ! i = 1 + int (card (var_name ` set (take i (keys @ [a]))))"
    if "i < length (keys @ [a])"
      and "var_name ((keys @ [a]) ! i) \<notin> var_name ` set (take i (keys @ [a]))" for i
  proof (cases "i < length keys")
    case True
    then show ?thesis using first that(2) len by (simp add: nth_append)
  next
    case False
    then have i: "i = length keys" using that by simp
    then have "var_map st' (var_name a) = None" using that(2) dom by (auto simp: dom_def)
    then have "v = var_counter st' + 1" using gv by (simp add: get_var_def)
    then show ?thesis using reg_inv_card [OF inv] dom i len by (simp add: nth_append)
  qed
  show ?case
    unfolding res fst_conv snd_conv run_ok_def
    using inv'' dom'' len look'' first'' by simp
qed

lemma run_ok_ids_eq:
  assumes "run_ok keys ids st'" "i < length keys" "j < length keys"
  shows "ids ! i = ids ! j \<longleftrightarrow> var_name (keys ! i) = var_name (keys ! j)"
proof
  assume "ids ! i = ids ! j"
  moreover have "var_map st' (var_name (keys ! i)) = Some (ids ! i)"
    "var_map st' (var_name (keys ! j)) = Some (ids ! j)"
    using assms by (simp_all add: run_ok_def)
  ultimately show "var_name (keys ! i) = var_name (keys ! j)"
    using reg_inv_inj [of st'] assms(1) by (simp add: run_ok_def)
next
  assume "var_name (keys ! i) = var_name (keys ! j)"
  moreover have "var_map st' (var_name (keys ! i)) = Some (ids ! i)"
    "var_map st' (var_name (keys ! j)) = Some (ids ! j)"
    using assms by (simp_all add: run_ok_def)
  ultimately show "ids ! i = ids ! j" by simp
qed

lemma run_ok_set_ids:
  assumes "run_ok keys ids st'"
  shows "set ids = {1..var_counter st'}"
proof -
  have look: "\<forall>i<length keys. var_map st' (var_name (keys ! i)) = Some (ids ! i)"
    and len: "length ids = length keys" and dom: "dom (var_map st') = var_name ` set keys"
    and ran: "ran (var_map st') = {1..var_counter st'}"
    using assms by (simp_all add: run_ok_def reg_inv_def)
  have "set ids = ran (var_map st')"
  proof (intro equalityI subsetI)
    fix v assume "v \<in> set ids"
    then obtain i where "i < length ids" "ids ! i = v" by (auto simp: in_set_conv_nth)
    then show "v \<in> ran (var_map st')" using look len by (auto simp: ran_def)
  next
    fix v assume "v \<in> ran (var_map st')"
    then obtain n where n: "var_map st' n = Some v" by (auto simp: ran_def)
    then have "n \<in> var_name ` set keys" using dom by auto
    then obtain i where "i < length keys" "n = var_name (keys ! i)"
      by (auto simp: in_set_conv_nth)
    then show "v \<in> set ids" using look len n by (auto simp: in_set_conv_nth)
  qed
  then show ?thesis using ran by simp
qed

lemma encode_to_sat_result:
  assumes "encode_to_sat list_id p = Inr (text, st')"
  shows "reg_inv st'" and "text = cnf_text st'" and "same_instance p st'"
proof -
  let ?st0 = "p\<lparr> var_counter := 0, clauses := [], var_map := Map.empty \<rparr>"
  have inv0: "reg_inv ?st0" by (simp add: reg_inv_def)
  have same0: "same_instance p ?st0" by (simp add: same_instance_def)
  obtain st2 where p2: "encode_path_constraints (encode_cell_constraints ?st0) = Inr st2"
    using assms by (auto simp: encode_to_sat_def Let_def split: sum.splits)
  obtain st3 where p3: "encode_turn_constraints list_id st2 = Inr st3"
    using assms p2 by (auto simp: encode_to_sat_def Let_def split: sum.splits)
  have res: "st' = encode_popular_constraints st3" "text = cnf_text st'"
    using assms p2 p3 by (auto simp: encode_to_sat_def Let_def)
  have "extends ?st0 (encode_cell_constraints ?st0)"
    by (rule encode_cell_constraints_ext) simp
  then have "extends ?st0 st2" using p2 by (rule encode_path_constraints_ext)
  then have "extends ?st0 st3" using p3 by (rule encode_turn_constraints_ext)
  then have e: "extends ?st0 st'" unfolding res(1) by (rule encode_popular_constraints_ext)
  show "reg_inv st'" using e inv0 by (simp add: extends_def)
  show "text = cnf_text st'" by (rule res(2))
  show "same_instance p st'" using e same0 by (auto simp: extends_def same_instance_def)
qed

text \<open>
  C3: the registry within one run, that is over the calls of \<^verbatim>\<open>get_var\<close> that follow
  the reset of \<^verbatim>\<open>encode_to_sat\<close>. The same key yields the same identifier and two
  keys yield the same identifier only when they have the same name; for the keys the planner
  uses, the same name means the same key. A key seen for the first time gets the number of
  distinct keys seen before it plus one, so the identifiers are \<open>1\<close> up to the counter with
  no gap, and the counter is the number of distinct keys. At the end of
  \<^verbatim>\<open>encode_to_sat\<close> the counter, which is the variable count of the header line
  \<^verbatim>\<open>p cnf\<close>, is the number of names in the registry.
\<close>

theorem registry_contract:
  assumes "var_counter st = 0" and "var_map st = Map.empty"
    and "get_vars keys st = (ids, st')"
  shows "length ids = length keys
       \<and> (\<forall>i<length keys. \<forall>j<length keys.
             (ids ! i = ids ! j) = (var_name (keys ! i) = var_name (keys ! j)))
       \<and> (\<forall>i<length keys. \<forall>j<length keys. encoder_key (keys ! i) \<and> encoder_key (keys ! j)
             \<longrightarrow> (ids ! i = ids ! j) = (keys ! i = keys ! j))
       \<and> (\<forall>i<length keys. var_name (keys ! i) \<notin> var_name ` set (take i keys)
             \<longrightarrow> ids ! i = 1 + int (card (var_name ` set (take i keys))))
       \<and> set ids = {1..var_counter st'}
       \<and> var_counter st' = int (card (var_name ` set keys))
       \<and> (\<forall>list_id p text st_enc. encode_to_sat list_id p = Inr (text, st_enc) \<longrightarrow>
             var_counter st_enc = int (card (dom (var_map st_enc)))
             \<and> ran (var_map st_enc) = {1..var_counter st_enc}
             \<and> text = ''p cnf '' @ str_int (var_counter st_enc) @ '' ''
                  @ str_int (int (length (clauses st_enc))) @ [newline]
                  @ concat (map clause_line (clauses st_enc)))"
proof -
  have ok: "run_ok keys ids st'"
    using run_ok_get_vars [OF assms(1,2), of keys] assms(3) by simp
  have eq: "(ids ! i = ids ! j) = (var_name (keys ! i) = var_name (keys ! j))"
    if "i < length keys" "j < length keys" for i j
    using run_ok_ids_eq [OF ok that] .
  have eq_key: "(ids ! i = ids ! j) = (keys ! i = keys ! j)"
    if "i < length keys" "j < length keys" "encoder_key (keys ! i) \<and> encoder_key (keys ! j)" for i j
    using eq [OF that(1,2)] that(3) encoder_key_inj [of "keys ! i" "keys ! j"] by auto
  have count: "var_counter st' = int (card (var_name ` set keys))"
    using ok reg_inv_card [of st'] by (simp add: run_ok_def)
  have enc_all: "\<forall>list_id p text st_enc. encode_to_sat list_id p = Inr (text, st_enc) \<longrightarrow>
             var_counter st_enc = int (card (dom (var_map st_enc)))
             \<and> ran (var_map st_enc) = {1..var_counter st_enc}
             \<and> text = ''p cnf '' @ str_int (var_counter st_enc) @ '' ''
                  @ str_int (int (length (clauses st_enc))) @ [newline]
                  @ concat (map clause_line (clauses st_enc))"
  proof (intro allI impI conjI)
    fix list_id p out and st_enc :: planner
    assume r: "encode_to_sat list_id p = Inr (out, st_enc)"
    have inv: "reg_inv st_enc" by (rule encode_to_sat_result(1) [OF r])
    show "var_counter st_enc = int (card (dom (var_map st_enc)))"
      by (rule reg_inv_card [OF inv])
    show "ran (var_map st_enc) = {1..var_counter st_enc}"
      using inv unfolding reg_inv_def by blast
    show "out = ''p cnf '' @ str_int (var_counter st_enc) @ '' ''
           @ str_int (int (length (clauses st_enc))) @ [newline]
           @ concat (map clause_line (clauses st_enc))"
      unfolding encode_to_sat_result(2) [OF r] cnf_text_def by (rule refl)
  qed
  have len: "length ids = length keys" using ok by (simp add: run_ok_def)
  have first: "\<forall>i<length keys. var_name (keys ! i) \<notin> var_name ` set (take i keys)
             \<longrightarrow> ids ! i = 1 + int (card (var_name ` set (take i keys)))"
    using ok unfolding run_ok_def by blast
  have eq_all: "\<forall>i<length keys. \<forall>j<length keys.
             (ids ! i = ids ! j) = (var_name (keys ! i) = var_name (keys ! j))"
    using eq by blast
  have eq_key_all: "\<forall>i<length keys. \<forall>j<length keys. encoder_key (keys ! i) \<and> encoder_key (keys ! j)
             \<longrightarrow> (ids ! i = ids ! j) = (keys ! i = keys ! j)"
    using eq_key by blast
  show ?thesis
    by (intro conjI) (rule len eq_all eq_key_all first run_ok_set_ids [OF ok] count enc_all)+
qed

theorem registry_contract_witness:
  "get_vars [[S ''C'', I 0, I 0, I 0], [S ''D'', I 0, I 0, I 0, S ''L''], [S ''C'', I 0, I 0, I 0]] init
     = ([1, 2, 1], with_registry init 2 [] [''C_0_0_0'' \<mapsto> 1, ''D_0_0_0_L'' \<mapsto> 2])
   \<and> var_counter inst12_encoded = int (card (dom (var_map inst12_encoded)))
   \<and> var_counter inst12_encoded = 10
   \<and> take 11 (cnf_text inst12_encoded) = ''p cnf 10 19''"
proof -
  let ?ks = "[[S ''C'', I 0, I 0, I 0], [S ''D'', I 0, I 0, I 0, S ''L''], [S ''C'', I 0, I 0, I 0]]"
  have i: "init = with_registry init 0 [] Map.empty"
    by (simp add: with_registry_def init_def)
  have g: "get_vars ?ks init
     = ([1, 2, 1], with_registry init 2 [] [''C_0_0_0'' \<mapsto> 1, ''D_0_0_0_L'' \<mapsto> 2])"
    by (subst i) (simp add: eval_registry)
  have c: "var_counter init = 0" "var_map init = Map.empty" by (simp_all add: init_def)
  have v: "var_counter inst12_encoded = 10"
    by (simp add: inst12_encoded_def with_registry_fields)
  have s: "str_int 10 = ''10''" "str_int 19 = ''19''"
    by (simp_all add: str_int_def str_nat.simps digit_char_def)
  have l: "length (clauses inst12_encoded) = 19"
    by (simp add: inst12_encoded_def with_registry_fields)
  from registry_contract [OF c g] inst12_encode [of "\<lambda>k. 0"]
  have n: "var_counter inst12_encoded = int (card (dom (var_map inst12_encoded)))"
    and t: "cnf_text inst12_encoded = ''p cnf '' @ str_int (var_counter inst12_encoded) @ '' ''
                  @ str_int (int (length (clauses inst12_encoded))) @ [newline]
                  @ concat (map clause_line (clauses inst12_encoded))"
    by blast+
  have "take 11 (cnf_text inst12_encoded) = ''p cnf 10 19''"
    by (subst t) (simp add: v l s)
  then show ?thesis
    using g v n by blast
qed


subsection \<open>At most one\<close>

lemma map_upt_shift: "map g [Suc m..<Suc n] = map (\<lambda>j. g (Suc j)) [m..<n]"
proof -
  have "map g [Suc m..<Suc n] = map g (map Suc [m..<n])"
    by (simp only: map_Suc_upt)
  then show ?thesis by (simp only: map_map o_def)
qed

lemma map_nth_fun: "map (\<lambda>j. f (vs ! j)) [0..<length vs] = map f vs"
proof -
  have "map (\<lambda>j. f (vs ! j)) [0..<length vs] = map f (map ((!) vs) [0..<length vs])"
    by (simp only: map_map o_def)
  then show ?thesis by (simp only: map_nth)
qed

lemma pair_rows_eq:
  "concat (map (\<lambda>i. map (\<lambda>j. [- (vs ! i), - (vs ! j)]) [i + 1..<length vs]) [0..<length vs])
     = pair_clauses vs"
proof (induction vs)
  case Nil
  show ?case by simp
next
  case (Cons a vs)
  let ?n = "length vs"
  let ?G = "\<lambda>i j. [- ((a # vs) ! i), - ((a # vs) ! j)]"
  have first: "map (\<lambda>j. ?G 0 j) [Suc 0..<Suc ?n] = map (\<lambda>b. [- a, - b]) vs"
    by (simp only: map_upt_shift nth_Cons_0 nth_Cons_Suc map_nth_fun [of "\<lambda>b. [- a, - b]"])
  have rest: "\<And>i. map (\<lambda>j. ?G (Suc i) j) [Suc (Suc i)..<Suc ?n]
        = map (\<lambda>j. [- (vs ! i), - (vs ! j)]) [Suc i..<?n]"
    by (simp only: map_upt_shift nth_Cons_Suc)
  have "concat (map (\<lambda>i. map (\<lambda>j. ?G i j) [Suc i..<Suc ?n]) [0..<Suc ?n])
      = map (\<lambda>j. ?G 0 j) [Suc 0..<Suc ?n]
        @ concat (map (\<lambda>i. map (\<lambda>j. ?G (Suc i) j) [Suc (Suc i)..<Suc ?n]) [0..<?n])"
    by (simp only: map_upt_Suc concat.simps)
  also have "\<dots> = map (\<lambda>b. [- a, - b]) vs
        @ concat (map (\<lambda>i. map (\<lambda>j. [- (vs ! i), - (vs ! j)]) [Suc i..<?n]) [0..<?n])"
    by (simp only: first rest)
  also have "\<dots> = pair_clauses (a # vs)"
    using Cons.IH by simp
  finally show ?case by simp
qed

lemma set_pair_clauses:
  "set (pair_clauses vs) = {[- (vs ! i), - (vs ! j)] | i j. i < j \<and> j < length vs}"
proof -
  have "set (pair_clauses vs)
      = (\<Union>i\<in>{0..<length vs}. (\<lambda>j. [- (vs ! i), - (vs ! j)]) ` {i + 1..<length vs})"
    unfolding pair_rows_eq [symmetric] by simp
  also have "\<dots> = {[- (vs ! i), - (vs ! j)] | i j. i < j \<and> j < length vs}"
  proof (intro equalityI subsetI)
    fix c assume "c \<in> (\<Union>i\<in>{0..<length vs}. (\<lambda>j. [- (vs ! i), - (vs ! j)]) ` {i + 1..<length vs})"
    then obtain i j where "c = [- (vs ! i), - (vs ! j)]" "i + 1 \<le> j" "j < length vs"
      by auto
    then have "c = [- (vs ! i), - (vs ! j)] \<and> i < j \<and> j < length vs"
      by simp
    then show "c \<in> {[- (vs ! i), - (vs ! j)] | i j. i < j \<and> j < length vs}"
      by blast
  next
    fix c assume "c \<in> {[- (vs ! i), - (vs ! j)] | i j. i < j \<and> j < length vs}"
    then obtain i j where c: "c = [- (vs ! i), - (vs ! j)]" and ij: "i < j" "j < length vs"
      by auto
    then have "i \<in> {0..<length vs}" "j \<in> {i + 1..<length vs}" by auto
    then show "c \<in> (\<Union>i\<in>{0..<length vs}. (\<lambda>j. [- (vs ! i), - (vs ! j)]) ` {i + 1..<length vs})"
      unfolding c by blast
  qed
  finally show ?thesis .
qed

lemma length_pair_clauses: "2 * length (pair_clauses vs) = length vs * (length vs - 1)"
proof (induction vs)
  case Nil
  show ?case by simp
next
  case (Cons a vs)
  have "length vs \<le> length vs * length vs" by (rule le_square)
  then show ?case using Cons.IH by (simp add: algebra_simps)
qed

lemma sat_all_append: "sat_all A (xs @ ys) \<longleftrightarrow> sat_all A xs \<and> sat_all A ys"
  by (simp add: sat_all_def)

lemma sat_pair_row:
  assumes "0 < a" "\<forall>v\<in>set vs. 0 < v"
  shows "sat_all A (map (\<lambda>b. [- a, - b]) vs) \<longleftrightarrow> (a \<in> A \<longrightarrow> set vs \<inter> A = {})"
  using assms by (induction vs) (auto simp: sat_all_def sat_clause_def lit_true_def)

lemma sat_pair_clauses:
  assumes "distinct vs" "\<forall>v\<in>set vs. 0 < v"
  shows "sat_all A (pair_clauses vs) \<longleftrightarrow> card (set vs \<inter> A) \<le> 1"
  using assms
proof (induction vs)
  case Nil
  show ?case by (simp add: sat_all_def)
next
  case (Cons a vs)
  then have IH: "sat_all A (pair_clauses vs) \<longleftrightarrow> card (set vs \<inter> A) \<le> 1"
    and a: "0 < a" "a \<notin> set vs" and pos: "\<forall>v\<in>set vs. 0 < v"
    by simp_all
  show ?case
  proof (cases "a \<in> A")
    case True
    then have "set (a # vs) \<inter> A = insert a (set vs \<inter> A)" by auto
    moreover have "a \<notin> set vs \<inter> A" using a by simp
    ultimately have "card (set (a # vs) \<inter> A) = Suc (card (set vs \<inter> A))"
      by simp
    moreover have "card (set vs \<inter> A) = 0 \<longleftrightarrow> set vs \<inter> A = {}" by simp
    ultimately show ?thesis
      using True IH sat_pair_row [OF a(1) pos, of A] by (auto simp: sat_all_append)
  next
    case False
    then have "set (a # vs) \<inter> A = set vs \<inter> A" by auto
    then show ?thesis
      using False IH sat_pair_row [OF a(1) pos, of A] by (simp add: sat_all_append)
  qed
qed

text \<open>
  C5: over a list of distinct variables, the at-most-one encoder appends to the clause store
  one clause \<open>[- a, - b]\<close> for every pair of positions \<open>i < j\<close>, nothing else, and an
  assignment satisfies these clauses exactly when at most one of the variables is true.
\<close>

theorem at_most_one_correct:
  assumes "distinct vars" and "\<forall>v\<in>set vars. 0 < v"
  shows "\<exists>new. encode_at_most_one vars st = st\<lparr> clauses := clauses st @ new \<rparr>
           \<and> set new = {[- (vars ! i), - (vars ! j)] | i j. i < j \<and> j < length vars}
           \<and> 2 * length new = length vars * (length vars - 1)
           \<and> (\<forall>A. sat_all A new \<longleftrightarrow> card (set vars \<inter> A) \<le> 1)"
proof (intro exI conjI allI)
  show "encode_at_most_one vars st = st\<lparr> clauses := clauses st @ pair_clauses vars \<rparr>"
    by (simp only: encode_at_most_one_eq pair_rows_eq)
  show "set (pair_clauses vars) = {[- (vars ! i), - (vars ! j)] | i j. i < j \<and> j < length vars}"
    by (rule set_pair_clauses)
  show "2 * length (pair_clauses vars) = length vars * (length vars - 1)"
    by (rule length_pair_clauses)
  show "sat_all A (pair_clauses vars) \<longleftrightarrow> card (set vars \<inter> A) \<le> 1" for A
    by (rule sat_pair_clauses [OF assms])
qed

theorem at_most_one_correct_witness:
  "distinct [1, 2, 3 :: int]
   \<and> clauses (encode_at_most_one [1, 2, 3] init) = [[- 1, - 2], [- 1, - 3], [- 2, - 3]]
   \<and> (\<exists>new. encode_at_most_one [1, 2, 3] init = init\<lparr> clauses := clauses init @ new \<rparr>
           \<and> (sat_all {2} new \<longleftrightarrow> card (set [1, 2, 3] \<inter> {2 :: int}) \<le> 1))"
proof -
  have d: "distinct [1, 2, 3 :: int]" and p: "\<forall>v\<in>set [1, 2, 3 :: int]. 0 < v" by simp_all
  have c: "clauses (encode_at_most_one [1, 2, 3] init) = [[- 1, - 2], [- 1, - 3], [- 2, - 3]]"
    by (simp add: encode_at_most_one_def add_clause_def init_def upt_rec)
  from at_most_one_correct [OF d p, of init] obtain new where
    "encode_at_most_one [1, 2, 3] init = init\<lparr> clauses := clauses init @ new \<rparr>"
    "\<forall>A. sat_all A new \<longleftrightarrow> card (set [1, 2, 3] \<inter> A) \<le> 1"
    by blast
  then show ?thesis using d c by blast
qed

subsection \<open>At most \<open>k\<close>: the policy\<close>











subsection \<open>Exactly one over no variable\<close>

text \<open>
  C6, as the code has it: \<^verbatim>\<open>encode_exactly_one\<close> called on an empty list returns at
  once. It emits no clause, raises nothing and leaves the planner as it was.
\<close>

theorem exactly_one_empty_noop: "encode_exactly_one [] st = st"
  by (simp add: encode_exactly_one_def)

text \<open>
  C6 as stated asks for a failure on the empty list. On the freshly built planner the call
  returns the planner unchanged, with an empty clause store.
\<close>

theorem exactly_one_empty_counterexample:
  "encode_exactly_one [] init = init \<and> clauses (encode_exactly_one [] init) = []"
  by (simp add: encode_exactly_one_def init_def)

subsection \<open>The decoder's sentinel\<close>

text \<open>
  C7: when the solver's output file is absent, or its first line is \<^verbatim>\<open>UNSAT\<close> up to
  surrounding white space, the decoder writes the single line \<^verbatim>\<open>0\<close> and nothing
  else, whatever the number of lines \<open>K\<close> and the rest of the planner.
\<close>

theorem decode_sentinel:
  assumes "sat_output = None \<or> (\<exists>l ls. sat_output = Some (l # ls) \<and> strip l = ''UNSAT'')"
  shows "decode_sat_output py_int sat_output st = Some (Inr (''0'' @ [newline], st))"
  using assms by (auto simp: decode_sat_output_def)

theorem decode_sentinel_witness:
  "decode_sat_output (\<lambda>t. None) (Some [''UNSAT'' @ [newline], ''1 2 0'']) (init\<lparr>K := 2\<rparr>)
     = Some (Inr (''0'' @ [newline], init\<lparr>K := 2\<rparr>))
   \<and> decode_sat_output (\<lambda>t. None) None (init\<lparr>K := 2\<rparr>)
     = Some (Inr (''0'' @ [newline], init\<lparr>K := 2\<rparr>))"
proof -
  have "strip (''UNSAT'' @ [newline]) = ''UNSAT''"
    by (simp add: strip_def is_space_def newline_def)
  then have h: "Some [''UNSAT'' @ [newline], ''1 2 0''] = None
      \<or> (\<exists>l ls. Some [''UNSAT'' @ [newline], ''1 2 0''] = Some (l # ls) \<and> strip l = ''UNSAT'')"
    by blast
  show ?thesis
    using decode_sentinel [OF h] decode_sentinel [of None] by simp
qed

subsection \<open>Edge variables that point outside the grid\<close>

text \<open>
  C1 asks that no variable \<^verbatim>\<open>("D", x, y, k, d)\<close> exists whose neighbour in direction
  \<open>d\<close> lies outside the grid. On the grid of one column and two rows, the encoder gives
  the identifier \<open>3\<close> to \<^verbatim>\<open>D_0_0_0_L\<close>, whose neighbour \<open>(- 1, 0)\<close> is outside:
  the loop "if not on path, no directions" runs over all four directions. Its only clause is
  \<open>[- 3, 1]\<close>, so the assignment \<open>{1, 2, 3, 6}\<close>, with this variable true, satisfies every
  clause.
\<close>

theorem out_of_grid_edge_created:
  "encode_to_sat list_id inst12 = Inr (cnf_text inst12_encoded, inst12_encoded)
   \<and> var_map inst12_encoded (var_name [S ''D'', I 0, I 0, I 0, S ''L'']) = Some 3
   \<and> \<not> in_bounds inst12_encoded (0 + (- 1)) (0 + 0)
   \<and> filter (\<lambda>c. 3 \<in> set c \<or> - 3 \<in> set c) (clauses inst12_encoded) = [[- 3, 1]]
   \<and> sat_all {1, 2, 3, 6} (clauses inst12_encoded)"
  by (simp add: inst12_encode inst12_encoded_def with_registry_fields in_bounds_def inst12_fields
      var_name_def str_int_small sat_all_def sat_clause_def lit_true_def)

subsection \<open>The decoder writes to the registry\<close>

lemma parse_stray_assignment:
  "parse_lines solver_tokens [''1 2 3 -4 -5 6 -7 -8 -9 -10 0'' @ [newline]] {} = Inr {1, 2, 3, 6}"
  by (simp add: solver_tokens_def split_def strip_def is_space_def newline_def insert_commute)

lemma walk_out_of_grid:
  "walk {1, 2, 3, 6} 0 (0, 1) (0, 0) [] inst12_encoded
     = Some ([''L''], with_registry inst12 14 (clauses inst12_encoded)
         ((var_map inst12_encoded)(''D_-1_0_0_L'' \<mapsto> 11, ''D_-1_0_0_R'' \<mapsto> 12,
            ''D_-1_0_0_U'' \<mapsto> 13, ''D_-1_0_0_D'' \<mapsto> 14)))"
  apply (subst walk.simps)
  apply (simp add: inst12_encoded_def eval_registry move_def)
  apply (subst walk.simps)
  apply (simp add: inst12_encoded_def eval_registry move_def)
  done


lemma decode_sat_output_run:
  assumes "lines \<noteq> []" "strip (hd lines) \<noteq> ''UNSAT''"
    and "parse_lines py_int (tl lines) {} = Inr A"
    and "decode_lines A [0..<nat (K st)] [] st = Some (Inr (paths, st'))"
  shows "decode_sat_output py_int (Some lines) st = Some (Inr (concat (map path_line paths), st'))"
  using assms by (simp add: decode_sat_output_def)

text \<open>
  C8 asks that decoding leaves the registry as encoding left it. On the same grid, with the
  satisfying assignment \<open>{1, 2, 3, 6}\<close> as the solver's output, the walk follows
  \<^verbatim>\<open>D_0_0_0_L\<close> to the cell \<open>(- 1, 0)\<close>, where \<^verbatim>\<open>get_var\<close> creates four new
  variables: the decoder writes \<^verbatim>\<open>L 0\<close> and the counter goes from \<open>10\<close> to \<open>14\<close>.
\<close>

theorem decoder_grows_registry:
  "decode_sat_output solver_tokens
       (Some [''SAT'' @ [newline], ''1 2 3 -4 -5 6 -7 -8 -9 -10 0'' @ [newline]]) inst12_encoded
     = Some (Inr (''L 0'' @ [newline],
         with_registry inst12 14 (clauses inst12_encoded)
           ((var_map inst12_encoded)(''D_-1_0_0_L'' \<mapsto> 11, ''D_-1_0_0_R'' \<mapsto> 12,
              ''D_-1_0_0_U'' \<mapsto> 13, ''D_-1_0_0_D'' \<mapsto> 14))))
   \<and> var_counter inst12_encoded = 10
   \<and> var_map inst12_encoded ''D_-1_0_0_L'' = None
   \<and> sat_all {1, 2, 3, 6} (clauses inst12_encoded)"
proof -
  have f: "K inst12_encoded = 1" "starts inst12_encoded = [(0, 0)]" "ends inst12_encoded = [(0, 1)]"
    "var_counter inst12_encoded = 10" "var_map inst12_encoded ''D_-1_0_0_L'' = None"
    by (simp_all add: inst12_encoded_def with_registry_fields inst12_fields)
  have s: "strip (''SAT'' @ [newline]) \<noteq> ''UNSAT''"
    by (simp add: strip_def is_space_def newline_def)
  have sat: "sat_all {1, 2, 3, 6} (clauses inst12_encoded)"
    by (simp add: inst12_encoded_def with_registry_fields sat_all_def sat_clause_def lit_true_def)
  have d: "decode_lines {1, 2, 3, 6} [0] [] inst12_encoded
     = Some (Inr ([[''L'']], with_registry inst12 14 (clauses inst12_encoded)
           ((var_map inst12_encoded)(''D_-1_0_0_L'' \<mapsto> 11, ''D_-1_0_0_R'' \<mapsto> 12,
              ''D_-1_0_0_U'' \<mapsto> 13, ''D_-1_0_0_D'' \<mapsto> 14))))"
    by (simp add: f walk_out_of_grid)
  have "decode_sat_output solver_tokens
       (Some [''SAT'' @ [newline], ''1 2 3 -4 -5 6 -7 -8 -9 -10 0'' @ [newline]]) inst12_encoded
     = Some (Inr (concat (map path_line [[''L'']]),
         with_registry inst12 14 (clauses inst12_encoded)
           ((var_map inst12_encoded)(''D_-1_0_0_L'' \<mapsto> 11, ''D_-1_0_0_R'' \<mapsto> 12,
              ''D_-1_0_0_U'' \<mapsto> 13, ''D_-1_0_0_D'' \<mapsto> 14))))"
  proof (rule decode_sat_output_run)
    show "[''SAT'' @ [newline], ''1 2 3 -4 -5 6 -7 -8 -9 -10 0'' @ [newline]] \<noteq> []" by simp
    show "strip (hd [''SAT'' @ [newline], ''1 2 3 -4 -5 6 -7 -8 -9 -10 0'' @ [newline]]) \<noteq> ''UNSAT''"
      using s by simp
    show "parse_lines solver_tokens
        (tl [''SAT'' @ [newline], ''1 2 3 -4 -5 6 -7 -8 -9 -10 0'' @ [newline]]) {} = Inr {1, 2, 3, 6}"
      unfolding list.sel by (rule parse_stray_assignment)
    show "decode_lines {1, 2, 3, 6} [0..<nat (K inst12_encoded)] [] inst12_encoded
     = Some (Inr ([[''L'']], with_registry inst12 14 (clauses inst12_encoded)
           ((var_map inst12_encoded)(''D_-1_0_0_L'' \<mapsto> 11, ''D_-1_0_0_R'' \<mapsto> 12,
              ''D_-1_0_0_U'' \<mapsto> 13, ''D_-1_0_0_D'' \<mapsto> 14))))"
      using d by (simp add: f)
  qed
  then show ?thesis
    using sat f by (simp add: path_line_def)
qed

subsection \<open>The namespace of the sequential counter\<close>

lemma str_int_digits:
  "str_int 0 = ''0''" "str_int 1 = ''1''" "str_int 2 = ''2''" "str_int 3 = ''3''"
  "str_int 4 = ''4''" "str_int 5 = ''5''" "str_int 6 = ''6''" "str_int 7 = ''7''"
  "str_int 8 = ''8''" "str_int 9 = ''9''"
  by (simp_all add: str_int_def str_nat.simps digit_char_def)

lemma py_range_6:
  "py_range 4 = [0, 1, 2, 3]" "py_range 5 = [0, 1, 2, 3, 4]" "py_range 6 = [0, 1, 2, 3, 4, 5]"
  by (simp_all add: py_range_def upt_rec)

lemmas eval_seq = encode_at_most_k_simple_def sequential_counter_def seq_cell_def
  valid_states_of_def py_range_6 str_int_digits eval_registry

text \<open>
  C2 asks that two calls of the sequential counter never share an auxiliary variable. The key
  of an auxiliary variable is \<^verbatim>\<open>("SEQ", id(variables), i, j)\<close>, and Python promises
  distinct \<^verbatim>\<open>id\<close>s only for objects alive at the same time. Two calls over five
  variables each with \<open>k = 4\<close> and the same \<^verbatim>\<open>id\<close>, here \<open>7\<close>: the first call
  allocates the variables \<open>11\<close> to \<open>36\<close>, the second allocates none and writes its
  clauses over the same variables, so that \<open>14\<close> stands for the first variable of both lists.
  With another \<^verbatim>\<open>id\<close>, here \<open>8\<close>, the second call allocates \<open>26\<close> variables of its
  own.
\<close>

theorem same_id_calls_alias:
  "var_counter (encode_at_most_k_simple 7 [1, 2, 3, 4, 5] 4 turn_state) = 36
   \<and> var_counter (encode_at_most_k_simple 7 [6, 7, 8, 9, 10] 4
         (encode_at_most_k_simple 7 [1, 2, 3, 4, 5] 4 turn_state)) = 36
   \<and> var_counter (encode_at_most_k_simple 8 [6, 7, 8, 9, 10] 4
         (encode_at_most_k_simple 7 [1, 2, 3, 4, 5] 4 turn_state)) = 62
   \<and> set [[11], [- 12], [- 1, - 11, 14], [- 14, 6, 12]]
       \<subseteq> set (clauses (encode_at_most_k_simple 7 [6, 7, 8, 9, 10] 4
              (encode_at_most_k_simple 7 [1, 2, 3, 4, 5] 4 turn_state)))"
proof (intro conjI)
  show "var_counter (encode_at_most_k_simple 7 [1, 2, 3, 4, 5] 4 turn_state) = 36"
    by (simp add: turn_state_def eval_seq)
  show "var_counter (encode_at_most_k_simple 7 [6, 7, 8, 9, 10] 4
         (encode_at_most_k_simple 7 [1, 2, 3, 4, 5] 4 turn_state)) = 36"
    by (simp add: turn_state_def eval_seq)
  show "var_counter (encode_at_most_k_simple 8 [6, 7, 8, 9, 10] 4
         (encode_at_most_k_simple 7 [1, 2, 3, 4, 5] 4 turn_state)) = 62"
    by (simp add: turn_state_def eval_seq)
  show "set [[11], [- 12], [- 1, - 11, 14], [- 14, 6, 12]]
       \<subseteq> set (clauses (encode_at_most_k_simple 7 [6, 7, 8, 9, 10] 4
              (encode_at_most_k_simple 7 [1, 2, 3, 4, 5] 4 turn_state)))"
    by (simp add: turn_state_def eval_seq)
qed

text \<open>
  The four clauses listed make the first variable of the second list true whenever the first
  variable of the first list is.
\<close>

lemma alias_forces_equal_turns:
  assumes "set [[11], [- 12], [- 1, - 11, 14], [- 14, 6, 12]] \<subseteq> set cs" "sat_all A cs"
  shows "1 \<in> A \<longrightarrow> 6 \<in> A"
proof -
  have "sat_clause A [11]" "sat_clause A [- 12]" "sat_clause A [- 1, - 11, 14]"
    "sat_clause A [- 14, 6, 12]"
    using assms by (auto simp: sat_all_def list_all_iff)
  then show ?thesis by (auto simp: sat_clause_def lit_true_def)
qed

subsection \<open>The walk of the decoder\<close>

lemma get_var_registers: "var_map (snd (get_var a st)) (var_name a) = Some (fst (get_var a st))"
  by (simp add: get_var_def split: option.splits)

lemma get_var_known: "var_map st (var_name a) = Some v \<Longrightarrow> get_var a st = (v, st)"
  by (simp add: get_var_def)

lemma extends_lookup: "extends s t \<Longrightarrow> var_map s n = Some v \<Longrightarrow> var_map t n = Some v"
  by (auto simp: extends_def map_le_def dom_def)

lemma find_dir_spec:
  assumes "find_dir ds A k x y st = (r, st')"
  shows "extends st st'
       \<and> (case r of
            Some d \<Rightarrow> d \<in> set ds \<and> (\<exists>v. var_map st' (var_name (dir_key k (x, y) d)) = Some v \<and> v \<in> A)
          | None \<Rightarrow> (\<forall>d\<in>set ds. \<exists>v. var_map st' (var_name (dir_key k (x, y) d)) = Some v \<and> v \<notin> A))"
  using assms
proof (induction ds arbitrary: st)
  case Nil
  then show ?case by simp
next
  case (Cons d ds)
  obtain v s1 where g: "get_var [S ''D'', I x, I y, I k, S d] st = (v, s1)"
    by (cases "get_var [S ''D'', I x, I y, I k, S d] st")
  have e1: "extends st s1" using get_var_extends [of st "[S ''D'', I x, I y, I k, S d]"] g by simp
  have r1: "var_map s1 (var_name (dir_key k (x, y) d)) = Some v"
    using get_var_registers [of "[S ''D'', I x, I y, I k, S d]" st] g by (simp add: dir_key_def)
  show ?case
  proof (cases "v \<in> A")
    case True
    then have "r = Some d" "st' = s1" using Cons.prems g by simp_all
    then show ?thesis using e1 r1 True by auto
  next
    case False
    then have rec: "find_dir ds A k x y s1 = (r, st')" using Cons.prems g by simp
    from Cons.IH [OF rec] have e2: "extends s1 st'"
      and c: "(case r of
            Some d \<Rightarrow> d \<in> set ds \<and> (\<exists>v. var_map st' (var_name (dir_key k (x, y) d)) = Some v \<and> v \<in> A)
          | None \<Rightarrow> (\<forall>d\<in>set ds. \<exists>v. var_map st' (var_name (dir_key k (x, y) d)) = Some v \<and> v \<notin> A))"
      by simp_all
    have r2: "var_map st' (var_name (dir_key k (x, y) d)) = Some v"
      using extends_lookup [OF e2 r1] .
    have "extends st st'" using e1 e2 by (rule extends_trans)
    then show ?thesis using c r2 False by (cases r) auto
  qed
qed











lemma inst31_fields:
  "scenario inst31 = 1" "N inst31 = 3" "M inst31 = 1" "K inst31 = 1" "J inst31 = 0"
  "starts inst31 = [(0, 0)]" "ends inst31 = [(2, 0)]" "popular inst31 = []"
  by (simp_all add: inst31_def init_def)

lemma inst31_encode: "encode_to_sat list_id inst31 = Inr (cnf_text inst31_encoded, inst31_encoded)"
  unfolding inst31_encoded_def by (simp add: eval_encode inst31_fields)







subsection \<open>The turn budget\<close>


lemma get_var_clauses [simp]: "clauses (snd (get_var a s)) = clauses s"
  by (simp add: get_var_def split: option.splits)

lemma extends_in_bounds: "extends s t \<Longrightarrow> in_bounds t x y = in_bounds s x y"
  by (simp add: extends_def same_instance_def in_bounds_def)










lemma py_range_mem: "x \<in> set (py_range n) \<longleftrightarrow> 0 \<le> x \<and> x < n"
proof
  assume "x \<in> set (py_range n)"
  then show "0 \<le> x \<and> x < n" by (auto simp: py_range_def)
next
  assume "0 \<le> x \<and> x < n"
  then have "nat x \<in> {0..<nat n}" "x = int (nat x)" by auto
  then show "x \<in> set (py_range n)" unfolding py_range_def set_map set_upt by (rule image_eqI [rotated])
qed






subsection \<open>The frame of the decoder\<close>

lemma extends_dom: "extends s t \<Longrightarrow> n \<in> dom (var_map s) \<Longrightarrow> n \<in> dom (var_map t)"
  by (auto simp: extends_def map_le_def dom_def)

lemma fold_registers:
  assumes ext: "\<And>x u. extends u (f x u)" and x: "x \<in> set xs"
    and reg: "\<And>u. n \<in> dom (var_map (f x u))"
  shows "n \<in> dom (var_map (fold f xs st))"
proof -
  obtain ys zs where xs: "xs = ys @ x # zs" using x by (auto simp: in_set_conv_decomp)
  have "fold f xs st = fold f zs (f x (fold f ys st))" by (simp add: xs)
  moreover have "extends (f x (fold f ys st)) (fold f zs (f x (fold f ys st)))"
    by (rule fold_extends [OF ext])
  ultimately show ?thesis using reg [of "fold f ys st"] extends_dom by metis
qed

lemma dir_implies_cell_registers:
  assumes "d \<in> set [''L'', ''R'', ''U'', ''D'']"
  shows "var_name (dir_key k (x, y) d) \<in> dom (var_map (dir_implies_cell k cv x y st))"
proof -
  obtain dx dy where d: "(d, dx, dy) \<in> set directions"
    using assms by (auto simp: directions_def)
  show ?thesis
    unfolding dir_implies_cell_def
  proof (rule fold_registers [OF _ d])
    show "extends u ((\<lambda>(d, dx, dy) s.
             let (v, s') = get_var [S ''D'', I x, I y, I k, S d] s
             in add_clause [- v, cv] s') z u)" for z u
      by (auto simp: case_prod_beta Let_def intro!: ext_rules)
    show "var_name (dir_key k (x, y) d) \<in> dom (var_map ((\<lambda>(d, dx, dy) s.
             let (v, s') = get_var [S ''D'', I x, I y, I k, S d] s
             in add_clause [- v, cv] s') (d, dx, dy) u))" for u
      using get_var_registers [of "[S ''D'', I x, I y, I k, S d]" u]
      by (simp add: case_prod_beta Let_def dir_key_def dom_def)
  qed
qed

lemma encode_path_cell_registers:
  assumes "d \<in> set [''L'', ''R'', ''U'', ''D'']"
  shows "var_name (dir_key k (x, y) d) \<in> dom (var_map (encode_path_cell k s e x y st))"
proof -
  let ?g = "get_var [S ''C'', I x, I y, I k] st"
  let ?st2 = "dir_implies_cell k (fst ?g) x y (snd ?g)"
  have "extends ?st2 (encode_path_cell k s e x y st)"
    unfolding encode_path_cell_def
    by (auto simp: case_prod_beta Let_def
        intro!: flow_clauses_ext path_start_cell_ext path_end_cell_ext path_mid_cell_ext)
  then show ?thesis
    using dir_implies_cell_registers [OF assms, of k x y "fst ?g" "snd ?g"] by (rule extends_dom)
qed

lemma encode_path_line_registers:
  assumes "d \<in> set [''L'', ''R'', ''U'', ''D'']" "in_bounds st x y"
  shows "var_name (dir_key k (x, y) d) \<in> dom (var_map (encode_path_line k s e st))"
proof -
  let ?g1 = "get_var [S ''C'', I (fst s), I (snd s), I k] st"
  let ?st2 = "add_clause [fst ?g1] (snd ?g1)"
  let ?g3 = "get_var [S ''C'', I (fst e), I (snd e), I k] ?st2"
  let ?st4 = "add_clause [fst ?g3] (snd ?g3)"
  have e4: "extends st ?st4" by (intro ext_rules)
  then have nm: "N ?st4 = N st" "M ?st4 = M st" by (simp_all add: extends_def same_instance_def)
  have x: "x \<in> set (py_range (N ?st4))" and y: "y \<in> set (py_range (M ?st4))"
    using assms(2) unfolding nm by (simp_all add: py_range_mem in_bounds_def)
  have "var_name (dir_key k (x, y) d)
      \<in> dom (var_map (fold (\<lambda>x. fold (\<lambda>y. encode_path_cell k s e x y) (py_range (M ?st4)))
              (py_range (N ?st4)) ?st4))"
  proof (rule fold_registers [OF _ x])
    show "extends u (fold (\<lambda>y. encode_path_cell k s e x' y) (py_range (M ?st4)) u)" for x' u
      by (intro fold_ext encode_path_cell_ext extends_refl)
    show "var_name (dir_key k (x, y) d)
        \<in> dom (var_map (fold (\<lambda>y. encode_path_cell k s e x y) (py_range (M ?st4)) u))" for u
    proof (rule fold_registers [OF _ y])
      show "extends v (encode_path_cell k s e x y' v)" for y' v
        by (intro encode_path_cell_ext extends_refl)
      show "var_name (dir_key k (x, y) d) \<in> dom (var_map (encode_path_cell k s e x y v))" for v
        by (rule encode_path_cell_registers [OF assms(1)])
    qed
  qed
  then show ?thesis by (simp add: encode_path_line_def case_prod_beta Let_def)
qed

lemma encode_path_lines_registers:
  assumes "encode_path_lines ks st = Inr st'" "k \<in> set ks"
    and "d \<in> set [''L'', ''R'', ''U'', ''D'']" "in_bounds st x y"
  shows "var_name (dir_key (int k) (x, y) d) \<in> dom (var_map st')"
  using assms(1,2,4)
proof (induction ks arbitrary: st)
  case Nil
  then show ?case by simp
next
  case (Cons a ks)
  let ?s1 = "encode_path_line (int a) (starts st ! a) (ends st ! a) st"
  have ok: "a < length (starts st) \<and> a < length (ends st)" and rec: "encode_path_lines ks ?s1 = Inr st'"
    using Cons.prems(1) by (auto split: if_splits)
  have e1: "extends st ?s1" by (intro encode_path_line_ext extends_refl)
  have ib: "in_bounds ?s1 x y" using Cons.prems(3) extends_in_bounds [OF e1] by simp
  show ?case
  proof (cases "k = a")
    case True
    have "var_name (dir_key (int k) (x, y) d) \<in> dom (var_map ?s1)"
      unfolding True by (rule encode_path_line_registers [OF assms(3) Cons.prems(3)])
    moreover have "extends ?s1 st'" using rec by (rule encode_path_lines_ext [OF extends_refl])
    ultimately show ?thesis by (rule extends_dom [rotated])
  next
    case False
    then have "k \<in> set ks" using Cons.prems(2) by simp
    from Cons.IH [OF rec this ib] show ?thesis .
  qed
qed

lemma encode_to_sat_grid_registered:
  assumes "encode_to_sat list_id p = Inr (cnf, st)"
  shows "grid_registered st"
proof -
  let ?st0 = "p\<lparr> var_counter := 0, clauses := [], var_map := Map.empty \<rparr>"
  let ?st1 = "encode_cell_constraints ?st0"
  obtain st2 where p2: "encode_path_constraints ?st1 = Inr st2"
    using assms by (auto simp: encode_to_sat_def Let_def split: sum.splits)
  obtain st3 where p3: "encode_turn_constraints list_id st2 = Inr st3"
    using assms p2 by (auto simp: encode_to_sat_def Let_def split: sum.splits)
  have res: "st = encode_popular_constraints st3"
    using assms p2 p3 by (auto simp: encode_to_sat_def Let_def)
  have e23: "extends st2 st3" using p3 by (rule encode_turn_constraints_ext [OF extends_refl])
  have e3: "extends st3 st" unfolding res by (intro encode_popular_constraints_ext extends_refl)
  have e2: "extends st2 st" using e23 e3 by (rule extends_trans)
  have e12: "extends ?st1 st2" using p2 by (rule encode_path_constraints_ext [OF extends_refl])
  have e1: "extends ?st1 st" using e12 e2 by (rule extends_trans)
  show ?thesis
    unfolding grid_registered_def
  proof (intro allI impI)
    fix k x y d
    assume h: "0 \<le> k \<and> k < K st \<and> in_bounds st x y \<and> d \<in> set [''L'', ''R'', ''U'', ''D'']"
    have K: "K ?st1 = K st" using e1 by (simp add: extends_def same_instance_def)
    have ib: "in_bounds ?st1 x y" using h extends_in_bounds [OF e1] by simp
    have "nat k \<in> set [0..<nat (K ?st1)]" using h K by auto
    moreover have "encode_path_lines [0..<nat (K ?st1)] ?st1 = Inr st2"
      using p2 by (simp add: encode_path_constraints_def)
    ultimately have "var_name (dir_key (int (nat k)) (x, y) d) \<in> dom (var_map st2)"
      using h ib by (intro encode_path_lines_registers) auto
    then have "var_name (dir_key k (x, y) d) \<in> dom (var_map st2)" using h by simp
    then show "var_name (dir_key k (x, y) d) \<in> dom (var_map st)" by (rule extends_dom [OF e2])
  qed
qed


lemma find_dir_clauses: "clauses (snd (find_dir ds A k x y st)) = clauses st"
  by (induction ds arbitrary: st) (simp_all add: case_prod_beta Let_def)

lemma find_dir_registered:
  assumes "\<forall>d\<in>set ds. var_name (dir_key k (x, y) d) \<in> dom (var_map st)"
  shows "snd (find_dir ds A k x y st) = st"
  using assms
proof (induction ds)
  case Nil
  show ?case by simp
next
  case (Cons d ds)
  then obtain v where v: "var_map st (var_name [S ''D'', I x, I y, I k, S d]) = Some v"
    by (auto simp: dir_key_def)
  show ?case using get_var_known [OF v] Cons by simp
qed

lemma walk_clauses:
  assumes "walk A k e c path st = Some r"
  shows "clauses (snd r) = clauses st"
proof (rule walk.raw_induct [where P = "\<lambda>A k e c path st r. clauses (snd r) = clauses st",
      OF _ assms], goal_cases)
  case (1 w A k e c path st r)
  obtain r' st' where fd: "find_dir [''L'', ''R'', ''U'', ''D''] A k (fst c) (snd c) st = (r', st')"
    by (cases "find_dir [''L'', ''R'', ''U'', ''D''] A k (fst c) (snd c) st")
  have cl: "clauses st' = clauses st"
    using find_dir_clauses [of "[''L'', ''R'', ''U'', ''D'']" A k "fst c" "snd c" st] fd by simp
  show ?case
  proof (cases "c = e")
    case True
    then show ?thesis using 1(2) by auto
  next
    case False
    show ?thesis
    proof (cases r')
      case None
      then show ?thesis using 1(2) False fd cl by auto
    next
      case (Some d)
      then have "w A k e (move d c) (path @ [d]) st' = Some r" using 1(2) False fd by simp
      from 1(1) [OF this] show ?thesis using cl by simp
    qed
  qed
qed

lemma walk_frame:
  assumes w: "walk A k e c path st = Some r"
    and g: "grid_registered st" "grid_closed A st" "0 \<le> k" "k < K st"
      "in_bounds st (fst c) (snd c)"
  shows "snd r = st"
proof -
  have "grid_registered st \<and> grid_closed A st \<and> 0 \<le> k \<and> k < K st
          \<and> in_bounds st (fst c) (snd c) \<longrightarrow> snd r = st"
  proof (rule walk.raw_induct [where P = "\<lambda>A k e c path st r.
          grid_registered st \<and> grid_closed A st \<and> 0 \<le> k \<and> k < K st
          \<and> in_bounds st (fst c) (snd c) \<longrightarrow> snd r = st", OF _ w], goal_cases)
    case (1 w A k e c path st r)
    show ?case
    proof (intro impI)
      assume h: "grid_registered st \<and> grid_closed A st \<and> 0 \<le> k \<and> k < K st
          \<and> in_bounds st (fst c) (snd c)"
      obtain r' st' where fd: "find_dir [''L'', ''R'', ''U'', ''D''] A k (fst c) (snd c) st = (r', st')"
        by (cases "find_dir [''L'', ''R'', ''U'', ''D''] A k (fst c) (snd c) st")
      have "\<forall>d\<in>set [''L'', ''R'', ''U'', ''D''].
              var_name (dir_key k (fst c, snd c) d) \<in> dom (var_map st)"
        using h unfolding grid_registered_def by blast
      from find_dir_registered [OF this, of A] have same: "st' = st" using fd by simp
      show "snd r = st"
      proof (cases "c = e")
        case True
        then show ?thesis using 1(2) by auto
      next
        case False
        show ?thesis
        proof (cases r')
          case None
          then show ?thesis using 1(2) False fd same by auto
        next
          case (Some d)
          then have rec: "w A k e (move d c) (path @ [d]) st = Some r"
            using 1(2) False fd same by simp
          have "d \<in> set [''L'', ''R'', ''U'', ''D'']
              \<and> (\<exists>v. var_map st (var_name (dir_key k (fst c, snd c) d)) = Some v \<and> v \<in> A)"
            using find_dir_spec [OF fd] Some same by simp
          then have "in_bounds st (fst (move d (fst c, snd c))) (snd (move d (fst c, snd c)))"
            using h unfolding grid_closed_def by blast
          then have "in_bounds st (fst (move d c)) (snd (move d c))" by simp
          with 1(1) [OF rec] h show ?thesis by simp
        qed
      qed
    qed
  qed
  then show ?thesis using g by simp
qed

lemma decode_lines_clauses:
  "decode_lines A ks paths st = Some (Inr (paths', st')) \<Longrightarrow> clauses st' = clauses st"
proof (induction ks arbitrary: paths st)
  case Nil
  then show ?case by simp
next
  case (Cons k ks)
  from Cons.prems obtain path s1 where
    w: "walk A (int k) (ends st ! k) (starts st ! k) [] st = Some (path, s1)"
    and rec: "decode_lines A ks (paths @ [path]) s1 = Some (Inr (paths', st'))"
    by (auto split: if_splits option.splits)
  from walk_clauses [OF w] Cons.IH [OF rec] show ?case by simp
qed

lemma decode_lines_frame:
  assumes "decode_lines A ks paths st = Some (Inr (paths', st'))"
    and "grid_registered st" "grid_closed A st" "starts_in_grid st"
    and "\<forall>k\<in>set ks. int k < K st"
  shows "st' = st"
  using assms(1,5)
proof (induction ks arbitrary: paths)
  case Nil
  then show ?case by simp
next
  case (Cons k ks)
  from Cons.prems(1) obtain path s1 where len: "k < length (starts st)"
    and w: "walk A (int k) (ends st ! k) (starts st ! k) [] st = Some (path, s1)"
    and rec: "decode_lines A ks (paths @ [path]) s1 = Some (Inr (paths', st'))"
    by (auto split: if_splits option.splits)
  have "in_bounds st (fst (starts st ! k)) (snd (starts st ! k))"
    using assms(4) len unfolding starts_in_grid_def by simp
  from walk_frame [OF w assms(2,3) _ _ this] Cons.prems(2) have "s1 = st" by simp
  with rec Cons.IH [of "paths @ [path]"] Cons.prems(2) show ?case by simp
qed

text \<open>
  C8, as the code has it. The decoder never writes to the clause store. It looks edge
  variables up with \<^verbatim>\<open>get_var\<close>, which registers a key it does not find; after
  \<^verbatim>\<open>encode_to_sat\<close> every edge variable of a cell of the grid is registered, so the
  registry is left as it was when the start cells are in the grid and no edge variable
  asserted true leads out of the grid.
\<close>

theorem decoder_frame:
  assumes enc: "encode_to_sat list_id p = Inr (cnf, st)"
    and dec: "decode_sat_output py_int sat_output st = Some (Inr (out, st'))"
  shows "clauses st' = clauses st
       \<and> (starts_in_grid st \<and> grid_closed (asserted_true py_int sat_output) st \<longrightarrow> st' = st)"
proof (cases "\<exists>lines. sat_output = Some lines \<and> lines \<noteq> [] \<and> strip (hd lines) \<noteq> ''UNSAT''")
  case False
  then have "st' = st" using dec by (auto simp: decode_sat_output_def split: option.splits if_splits)
  then show ?thesis by simp
next
  case True
  then obtain lines where l: "sat_output = Some lines" "lines \<noteq> []" "strip (hd lines) \<noteq> ''UNSAT''"
    by blast
  from dec l obtain A paths where A: "parse_lines py_int (tl lines) {} = Inr A"
    and d: "decode_lines A [0..<nat (K st)] [] st = Some (Inr (paths, st'))"
    by (auto simp: decode_sat_output_def split: sum.splits option.splits)
  have a: "asserted_true py_int sat_output = A" by (simp add: asserted_true_def l A)
  have c: "clauses st' = clauses st" using d by (rule decode_lines_clauses)
  have "st' = st" if "starts_in_grid st" "grid_closed A st"
    using d encode_to_sat_grid_registered [OF enc] that(2,1)
    by (rule decode_lines_frame) auto
  then show ?thesis using c a by simp
qed


lemma parse_solution:
  "parse_lines solver_tokens [''1 2 -3 -4 -5 6 -7 -8 -9 -10 0'' @ [newline]] {} = Inr {1, 2, 6}"
  by (simp add: solver_tokens_def split_def strip_def is_space_def newline_def insert_commute)

lemma inst12_grid_closed: "grid_closed {1, 2, 6} inst12_encoded"
  unfolding grid_closed_def
proof (intro allI impI)
  fix k x y d v
  assume h: "0 \<le> k \<and> k < K inst12_encoded \<and> in_bounds inst12_encoded x y
      \<and> d \<in> set [''L'', ''R'', ''U'', ''D'']
      \<and> var_map inst12_encoded (var_name (dir_key k (x, y) d)) = Some v \<and> v \<in> {1, 2, 6}"
  then have k: "k = 0" and x: "x = 0" and y: "y = 0 \<or> y = 1"
    by (auto simp: inst12_encoded_def with_registry_fields inst12_fields in_bounds_def)
  from h have "d = ''D'' \<and> y = 0"
    using y unfolding k x
    by (auto simp: inst12_encoded_def with_registry_fields var_name_def dir_key_def str_int_small
        split: if_splits)
  then show "in_bounds inst12_encoded (fst (move d (x, y))) (snd (move d (x, y)))"
    unfolding x by (simp add: move_def inst12_encoded_def with_registry_fields inst12_fields in_bounds_def)
qed

theorem decoder_frame_witness:
  "decode_sat_output solver_tokens
       (Some [''SAT'' @ [newline], ''1 2 -3 -4 -5 6 -7 -8 -9 -10 0'' @ [newline]]) inst12_encoded
     = Some (Inr (''D 0'' @ [newline], inst12_encoded))
   \<and> starts_in_grid inst12_encoded
   \<and> grid_closed (asserted_true solver_tokens
         (Some [''SAT'' @ [newline], ''1 2 -3 -4 -5 6 -7 -8 -9 -10 0'' @ [newline]])) inst12_encoded
   \<and> (\<exists>st'. decode_sat_output solver_tokens
         (Some [''SAT'' @ [newline], ''1 2 -3 -4 -5 6 -7 -8 -9 -10 0'' @ [newline]]) inst12_encoded
           = Some (Inr (''D 0'' @ [newline], st'))
         \<and> clauses st' = clauses inst12_encoded \<and> st' = inst12_encoded)"
proof -
  let ?out = "Some [''SAT'' @ [newline], ''1 2 -3 -4 -5 6 -7 -8 -9 -10 0'' @ [newline]]"
  have f: "K inst12_encoded = 1" "starts inst12_encoded = [(0, 0)]" "ends inst12_encoded = [(0, 1)]"
    "N inst12_encoded = 1" "M inst12_encoded = 2"
    by (simp_all add: inst12_encoded_def with_registry_fields inst12_fields)
  have s: "strip (''SAT'' @ [newline]) \<noteq> ''UNSAT''"
    by (simp add: strip_def is_space_def newline_def)
  have w: "walk {1, 2, 6} 0 (0, 1) (0, 0) [] inst12_encoded = Some ([''D''], inst12_encoded)"
    apply (subst walk.simps)
    apply (simp add: inst12_encoded_def eval_registry move_def)
    apply (subst walk.simps)
    apply simp
    done
  have d: "decode_lines {1, 2, 6} [0..<nat (K inst12_encoded)] [] inst12_encoded
      = Some (Inr ([[''D'']], inst12_encoded))"
    by (simp add: f w)
  have run: "decode_sat_output solver_tokens ?out inst12_encoded
      = Some (Inr (concat (map path_line [[''D'']]), inst12_encoded))"
  proof (rule decode_sat_output_run)
    show "[''SAT'' @ [newline], ''1 2 -3 -4 -5 6 -7 -8 -9 -10 0'' @ [newline]] \<noteq> []" by simp
    show "strip (hd [''SAT'' @ [newline], ''1 2 -3 -4 -5 6 -7 -8 -9 -10 0'' @ [newline]]) \<noteq> ''UNSAT''"
      using s by simp
    show "parse_lines solver_tokens
        (tl [''SAT'' @ [newline], ''1 2 -3 -4 -5 6 -7 -8 -9 -10 0'' @ [newline]]) {} = Inr {1, 2, 6}"
      unfolding list.sel by (rule parse_solution)
    show "decode_lines {1, 2, 6} [0..<nat (K inst12_encoded)] [] inst12_encoded
      = Some (Inr ([[''D'']], inst12_encoded))"
      by (rule d)
  qed
  then have dec: "decode_sat_output solver_tokens ?out inst12_encoded
      = Some (Inr (''D 0'' @ [newline], inst12_encoded))"
    by (simp add: path_line_def)
  have a: "asserted_true solver_tokens ?out = {1, 2, 6}"
    unfolding asserted_true_def option.case list.sel parse_solution by simp
  have g: "starts_in_grid inst12_encoded"
    by (simp add: starts_in_grid_def f in_bounds_def)
  have c: "grid_closed (asserted_true solver_tokens ?out) inst12_encoded"
    unfolding a by (rule inst12_grid_closed)
  show ?thesis
    using decoder_frame [OF inst12_encode [of "\<lambda>k. 0"] dec] dec g c by blast
qed

end
